theory Spec2Isabelle
  imports Complex_Main "HOL-Library.Multiset"
begin

section \<open>JavaScript numbers\<close>

text \<open>
  The solver computes with JavaScript \<open>number\<close>s.  They are modelled as the reals extended by
  the three IEEE special values, with the IEEE rules for the special values; the two zeros are
  not distinguished (a zero divisor counts as \<open>+0\<close>).  The arithmetic of coordinates and
  distances (\<open>jadd\<close> to \<open>jsqrt\<close> below) is exact on finite values: their rounding and overflow
  are not modelled.  The sum of the demands of a route (\<open>dadd\<close>) and \<open>Math.acos\<close>, \<open>Math.cos\<close>
  round their results to double precision (\<open>toNumber\<close>), because what the specification says
  about them depends on the rounding.
\<close>

datatype jsnum = Fin real | PInf | NInf | NaN

fun jneg :: "jsnum \<Rightarrow> jsnum" where
  "jneg (Fin a) = Fin (- a)"
| "jneg PInf = NInf"
| "jneg NInf = PInf"
| "jneg NaN = NaN"

fun jadd :: "jsnum \<Rightarrow> jsnum \<Rightarrow> jsnum" where
  "jadd (Fin a) (Fin b) = Fin (a + b)"
| "jadd (Fin a) PInf = PInf"
| "jadd (Fin a) NInf = NInf"
| "jadd PInf (Fin b) = PInf"
| "jadd PInf PInf = PInf"
| "jadd NInf (Fin b) = NInf"
| "jadd NInf NInf = NInf"
| "jadd PInf NInf = NaN"
| "jadd NInf PInf = NaN"
| "jadd NaN y = NaN"
| "jadd x NaN = NaN"

definition jsub :: "jsnum \<Rightarrow> jsnum \<Rightarrow> jsnum" where
  "jsub x y = jadd x (jneg y)"

fun jmul :: "jsnum \<Rightarrow> jsnum \<Rightarrow> jsnum" where
  "jmul (Fin a) (Fin b) = Fin (a * b)"
| "jmul (Fin a) PInf = (if a = 0 then NaN else if 0 < a then PInf else NInf)"
| "jmul (Fin a) NInf = (if a = 0 then NaN else if 0 < a then NInf else PInf)"
| "jmul PInf (Fin b) = (if b = 0 then NaN else if 0 < b then PInf else NInf)"
| "jmul NInf (Fin b) = (if b = 0 then NaN else if 0 < b then NInf else PInf)"
| "jmul PInf PInf = PInf"
| "jmul NInf NInf = PInf"
| "jmul PInf NInf = NInf"
| "jmul NInf PInf = NInf"
| "jmul NaN y = NaN"
| "jmul x NaN = NaN"

fun jdiv :: "jsnum \<Rightarrow> jsnum \<Rightarrow> jsnum" where
  "jdiv (Fin a) (Fin b) =
     (if b = 0 then (if a = 0 then NaN else if 0 < a then PInf else NInf) else Fin (a / b))"
| "jdiv (Fin a) PInf = Fin 0"
| "jdiv (Fin a) NInf = Fin 0"
| "jdiv PInf (Fin b) = (if 0 \<le> b then PInf else NInf)"
| "jdiv NInf (Fin b) = (if 0 \<le> b then NInf else PInf)"
| "jdiv PInf PInf = NaN"
| "jdiv PInf NInf = NaN"
| "jdiv NInf PInf = NaN"
| "jdiv NInf NInf = NaN"
| "jdiv NaN y = NaN"
| "jdiv x NaN = NaN"

text \<open>\<open>x < y\<close>; every comparison with \<open>NaN\<close> is false.\<close>

fun jlt :: "jsnum \<Rightarrow> jsnum \<Rightarrow> bool" where
  "jlt (Fin a) (Fin b) = (a < b)"
| "jlt (Fin a) PInf = True"
| "jlt NInf (Fin b) = True"
| "jlt NInf PInf = True"
| "jlt x y = False"

definition jgt :: "jsnum \<Rightarrow> jsnum \<Rightarrow> bool" where
  "jgt x y = jlt y x"

text \<open>\<open>x === y\<close> on numbers: \<open>NaN\<close> is not equal to itself.\<close>

fun jeq :: "jsnum \<Rightarrow> jsnum \<Rightarrow> bool" where
  "jeq NaN y = False"
| "jeq x NaN = False"
| "jeq x y = (x = y)"

fun jabs :: "jsnum \<Rightarrow> jsnum" where
  "jabs (Fin a) = Fin \<bar>a\<bar>"
| "jabs PInf = PInf"
| "jabs NInf = PInf"
| "jabs NaN = NaN"

text \<open>\<open>Math.max(x, y)\<close>: \<open>NaN\<close> as soon as one argument is.\<close>

fun jmax :: "jsnum \<Rightarrow> jsnum \<Rightarrow> jsnum" where
  "jmax NaN y = NaN"
| "jmax x NaN = NaN"
| "jmax x y = (if jlt x y then y else x)"

text \<open>\<open>Math.pow(x, 2)\<close> and \<open>Math.sqrt\<close>.\<close>

definition jpow2 :: "jsnum \<Rightarrow> jsnum" where
  "jpow2 x = jmul x x"

fun jsqrt :: "jsnum \<Rightarrow> jsnum" where
  "jsqrt (Fin a) = (if a < 0 then NaN else Fin (sqrt a))"
| "jsqrt PInf = PInf"
| "jsqrt NInf = NaN"
| "jsqrt NaN = NaN"

text \<open>
  Rounding to double precision (IEEE 754 binary64, round to nearest, ties to even).  A double
  is an integer multiple of \<open>2^e\<close>, where \<open>e = max(floor(log2 |x|), -1022) - 52\<close> in the
  binade of \<open>x\<close> (the subnormal numbers share the exponent \<open>-1074\<close>); \<open>roundDouble x\<close> is the
  multiple nearest to \<open>x\<close>, the even one of two that are equally near.  A result of magnitude
  \<open>2^1024\<close> or more is an infinity.
\<close>

definition roundHalfEven :: "real \<Rightarrow> int" where
  "roundHalfEven x =
     (let n = \<lfloor>x\<rfloor>; r = x - of_int n
      in if r < 1 / 2 then n else if 1 / 2 < r then n + 1 else if even n then n else n + 1)"

definition ulpExponent :: "real \<Rightarrow> int" where
  "ulpExponent x = max \<lfloor>log 2 \<bar>x\<bar>\<rfloor> (- 1022) - 52"

definition roundDouble :: "real \<Rightarrow> real" where
  "roundDouble x = of_int (roundHalfEven (x / 2 powi ulpExponent x)) * 2 powi ulpExponent x"

definition toNumber :: "real \<Rightarrow> jsnum" where
  "toNumber x =
     (let y = roundDouble x
      in if 2 ^ 1024 \<le> y then PInf else if y \<le> - (2 ^ 1024) then NInf else Fin y)"

text \<open>\<open>x + y\<close> on doubles: the sum, rounded.\<close>

definition dadd :: "jsnum \<Rightarrow> jsnum \<Rightarrow> jsnum" where
  "dadd x y = (case jadd x y of Fin s \<Rightarrow> toNumber s | z \<Rightarrow> z)"

text \<open>
  \<open>Math.acos\<close> and \<open>Math.cos\<close>.  ECMAScript leaves their precision to the implementation; they
  are taken to return the double nearest to the mathematical value.
\<close>

fun jacos :: "jsnum \<Rightarrow> jsnum" where
  "jacos (Fin a) = (if - 1 \<le> a \<and> a \<le> 1 then toNumber (arccos a) else NaN)"
| "jacos x = NaN"

fun jcos :: "jsnum \<Rightarrow> jsnum" where
  "jcos (Fin a) = toNumber (cos a)"
| "jcos x = NaN"

section \<open>Points\<close>

text \<open>
  A \<open>Point\<close> is an object, compared by identity (\<open>===\<close>) and used as a key of the distance
  tables.  Its identity is a reference: \<open>CustRef i\<close> is the point made from \<open>customers[i]\<close>,
  \<open>DepotRef\<close> the depot's point.  The objects live in a point heap.
\<close>

datatype point_ref = DepotRef | CustRef nat

record Point =
  point_x :: jsnum
  point_y :: jsnum
  demand :: jsnum
  distances :: "point_ref \<Rightarrow> jsnum option"

type_synonym point_heap = "point_ref \<Rightarrow> Point"

definition getDistanceTo :: "point_heap \<Rightarrow> point_ref \<Rightarrow> point_ref \<Rightarrow> jsnum" where
  "getDistanceTo ph p q = (case distances (ph p) q of None \<Rightarrow> PInf | Some d \<Rightarrow> d)"

definition setDistanceTo :: "point_heap \<Rightarrow> point_ref \<Rightarrow> point_ref \<Rightarrow> jsnum \<Rightarrow> point_heap" where
  "setDistanceTo ph p q d = ph(p := (ph p)\<lparr>distances := (distances (ph p))(q \<mapsto> d)\<rparr>)"

section \<open>Routes\<close>

text \<open>
  A \<open>Route\<close> holds its point sequence (the depot first), the depot and its identifier, taken
  from the static counter \<open>Route.id\<close>.  A route is never shorter than two points: the
  constructor builds \<open>[depot, a]\<close>, and neither \<open>joinRoute\<close> nor \<open>twoOptSwap\<close> shortens it.
\<close>

record Route =
  points :: "point_ref list"
  depot :: point_ref
  route_id :: nat

definition newRoute :: "point_ref \<Rightarrow> point_ref \<Rightarrow> nat \<Rightarrow> Route" where
  "newRoute a d n = \<lparr>points = [d, a], depot = d, route_id = n\<rparr>"

definition getStart :: "Route \<Rightarrow> point_ref" where
  "getStart r = points r ! 1"

definition getEnd :: "Route \<Rightarrow> point_ref" where
  "getEnd r = points r ! (length (points r) - 1)"

text \<open>\<open>xs.slice(a, b)\<close> for indices \<open>0 \<le> a\<close>, \<open>0 \<le> b\<close>.\<close>

definition slice :: "nat \<Rightarrow> nat \<Rightarrow> 'a list \<Rightarrow> 'a list" where
  "slice a b xs = take (b - a) (drop a xs)"

text \<open>The loop body of \<open>totalDistance\<close>, on the pair \<open>(prev, cost)\<close>.\<close>

definition distanceStep :: "point_heap \<Rightarrow> point_ref \<times> jsnum \<Rightarrow> point_ref \<Rightarrow> point_ref \<times> jsnum" where
  "distanceStep ph pc point =
     (if point = fst pc then pc else (point, jadd (snd pc) (getDistanceTo ph (fst pc) point)))"

definition totalDistance :: "point_heap \<Rightarrow> Route \<Rightarrow> jsnum" where
  "totalDistance ph r =
     (let pc = foldl (distanceStep ph) (points r ! 0, Fin 0) (points r)
      in jadd (snd pc) (getDistanceTo ph (fst pc) (depot r)))"

text \<open>\<open>totalDemand\<close> adds the demands from left to right, in double precision.\<close>

definition totalDemand :: "point_heap \<Rightarrow> Route \<Rightarrow> jsnum" where
  "totalDemand ph r =
     foldl (\<lambda>sum point. dadd sum (if point = depot r then Fin 0 else demand (ph point)))
       (Fin 0) (points r)"

definition twoOptSwap :: "nat \<Rightarrow> nat \<Rightarrow> Route \<Rightarrow> Route" where
  "twoOptSwap i k r =
     r\<lparr>points := slice 0 (i + 1) (points r) @ rev (slice (i + 1) (k + 1) (points r))
                 @ drop (k + 1) (points r)\<rparr>"

text \<open>The two comparisons of \<open>twoOpt\<close>: an inner edge pair, and the edge back to the first point.\<close>

definition improvesInner :: "point_heap \<Rightarrow> point_ref list \<Rightarrow> nat \<Rightarrow> nat \<Rightarrow> bool" where
  "improvesInner ph ps i j =
     jgt (jadd (getDistanceTo ph (ps ! i) (ps ! (i + 1))) (getDistanceTo ph (ps ! j) (ps ! (j + 1))))
         (jadd (getDistanceTo ph (ps ! i) (ps ! j)) (getDistanceTo ph (ps ! (j + 1)) (ps ! (i + 1))))"

definition improvesWrap :: "point_heap \<Rightarrow> point_ref list \<Rightarrow> nat \<Rightarrow> nat \<Rightarrow> bool" where
  "improvesWrap ph ps i j =
     jgt (jadd (getDistanceTo ph (ps ! i) (ps ! (i + 1))) (getDistanceTo ph (ps ! j) (ps ! 0)))
         (jadd (getDistanceTo ph (ps ! i) (ps ! j)) (getDistanceTo ph (ps ! 0) (ps ! (i + 1))))"

text \<open>
  The inner loop of \<open>twoOpt\<close> from \<open>j\<close> on: \<open>(True, j)\<close> when the comparison holds at \<open>j\<close>,
  \<open>(False, j)\<close> with the value \<open>j\<close> has when the loop ends otherwise (\<open>j\<close> is a \<open>var\<close>, read
  after the loop).
\<close>

function twoOptInner :: "point_heap \<Rightarrow> point_ref list \<Rightarrow> nat \<Rightarrow> nat \<Rightarrow> bool \<times> nat" where
  "twoOptInner ph ps i j =
     (if j + 1 < length ps then
        (if j = i + 1 then twoOptInner ph ps i (j + 1)
         else if improvesInner ph ps i j then (True, j)
         else twoOptInner ph ps i (j + 1))
      else (False, j))"
  by pat_completeness auto
termination
  by (relation "measure (\<lambda>(ph, ps, i, j). length ps - j)") auto

declare twoOptInner.simps [simp del]

text \<open>The outer loop from \<open>i\<close> on: the first index pair to swap, if there is one.\<close>

function twoOptOuter :: "point_heap \<Rightarrow> point_ref list \<Rightarrow> nat \<Rightarrow> (nat \<times> nat) option" where
  "twoOptOuter ph ps i =
     (if i + 2 < length ps then
        (case twoOptInner ph ps i (i + 2) of
           (True, j) \<Rightarrow> Some (i, j)
         | (False, j) \<Rightarrow>
             if improvesWrap ph ps i j then Some (i, j) else twoOptOuter ph ps (i + 1))
      else None)"
  by pat_completeness auto
termination
  by (relation "measure (\<lambda>(ph, ps, i). length ps - i)") auto

declare twoOptOuter.simps [simp del]

text \<open>\<open>twoOpt\<close> returns the total distance and leaves the route changed or not.\<close>

definition twoOpt :: "point_heap \<Rightarrow> Route \<Rightarrow> jsnum \<times> Route" where
  "twoOpt ph r =
     (case twoOptOuter ph (points r) 0 of
        Some (i, j) \<Rightarrow> (let r' = twoOptSwap i j r in (totalDistance ph r', r'))
      | None \<Rightarrow> (totalDistance ph r, r))"

text \<open>The loop of \<open>optimise\<close> with \<open>n\<close> iterations left.\<close>

primrec optimiseLoop :: "point_heap \<Rightarrow> nat \<Rightarrow> jsnum \<Rightarrow> Route \<Rightarrow> Route" where
  "optimiseLoop ph 0 bestDistance r = r"
| "optimiseLoop ph (Suc n) bestDistance r =
     (case twoOpt ph r of (distance, r') \<Rightarrow>
        if jeq distance bestDistance then r' else optimiseLoop ph n distance r')"

definition optimise :: "point_heap \<Rightarrow> nat \<Rightarrow> Route \<Rightarrow> Route" where
  "optimise ph maxIter r = optimiseLoop ph maxIter (Fin 0) r"

text \<open>
  The distances returned by the successive \<open>twoOpt\<close> calls of that loop, in order: one entry
  per pass made.
\<close>

primrec optimisePasses :: "point_heap \<Rightarrow> nat \<Rightarrow> jsnum \<Rightarrow> Route \<Rightarrow> jsnum list" where
  "optimisePasses ph 0 bestDistance r = []"
| "optimisePasses ph (Suc n) bestDistance r =
     (case twoOpt ph r of (distance, r') \<Rightarrow>
        if jeq distance bestDistance then [distance]
        else distance # optimisePasses ph n distance r')"

section \<open>The problem and its construction\<close>

record Customer =
  lon :: jsnum
  lat :: jsnum
  customer_demand :: jsnum

record ClarkeWrightProblemOptions =
  customers :: "Customer list"
  depot_lon :: jsnum
  depot_lat :: jsnum
  options_maxDistance :: jsnum

record CWWeights =
  adjacency :: jsnum
  asymmetry :: jsnum
  demandWeight :: jsnum
  minSavings :: jsnum

text \<open>A savings entry refers to its two route objects; a route reference is the route's identifier.\<close>

record Savings =
  savings :: jsnum
  routeA :: nat
  routeB :: nat

text \<open>
  The fields of \<open>ClarkeWrightProblem\<close>, with the two heaps the object graph lives in and the
  static counter \<open>Route.id\<close>.  \<open>joinedRoutes\<close> only ever maps identifiers to \<open>true\<close>: it is the
  set of its keys.
\<close>

record ClarkeWrightProblem =
  cw_points :: "point_ref list"
  maxDistance :: jsnum
  cw_depot :: point_ref
  solutions :: "nat list"
  savings_list :: "Savings list"
  joinedRoutes :: "nat set"
  averageDemand :: jsnum
  maxDemand :: jsnum
  maxPointDistance :: jsnum
  pointHeap :: point_heap
  routeHeap :: "nat \<Rightarrow> Route"
  routeIdCounter :: nat

definition fromCustomer :: "Customer \<Rightarrow> Point" where
  "fromCustomer c =
     \<lparr>point_x = lon c, point_y = lat c, demand = customer_demand c, distances = Map.empty\<rparr>"

text \<open>
  The distance of two coordinates comes from the library function \<open>getDistance\<close>, a parameter
  \<open>gd\<close> here.
\<close>

type_synonym distance_fn = "jsnum \<times> jsnum \<Rightarrow> jsnum \<times> jsnum \<Rightarrow> jsnum"

definition coords :: "point_heap \<Rightarrow> point_ref \<Rightarrow> jsnum \<times> jsnum" where
  "coords ph p = (point_x (ph p), point_y (ph p))"

text \<open>The two nested loops of the constructor, on the pair of the point heap and \<open>maxPointDistance\<close>.\<close>

definition pairStep ::
  "distance_fn \<Rightarrow> point_ref \<Rightarrow> point_heap \<times> jsnum \<Rightarrow> point_ref \<Rightarrow> point_heap \<times> jsnum" where
  "pairStep gd point st otherPoint =
     (let distance = gd (coords (fst st) point) (coords (fst st) otherPoint)
      in (setDistanceTo (fst st) point otherPoint distance,
          if jgt distance (snd st) then distance else snd st))"

definition pointStep ::
  "distance_fn \<Rightarrow> point_ref list \<Rightarrow> point_ref \<Rightarrow> point_heap \<times> jsnum \<Rightarrow> point_ref
     \<Rightarrow> point_heap \<times> jsnum" where
  "pointStep gd ps dep st point =
     (let st' = foldl (pairStep gd point) st ps;
          depotDistance = gd (coords (fst st') point) (coords (fst st') dep)
      in (setDistanceTo (setDistanceTo (fst st') point dep depotDistance) dep point depotDistance,
          snd st'))"

text \<open>
  The constructor.  The random sort leaves the points in some order: \<open>order\<close> lists the
  customer indices in that order.  \<open>idCounter\<close> is the value of the static \<open>Route.id\<close> at the
  time.  No route object of the problem exists yet: the initial content of the route heap is
  never read, since \<open>solve\<close> allocates every route it uses.
\<close>

definition constructor ::
  "distance_fn \<Rightarrow> nat list \<Rightarrow> nat \<Rightarrow> ClarkeWrightProblemOptions \<Rightarrow> ClarkeWrightProblem" where
  "constructor gd order idCounter options =
     (let ph0 = (\<lambda>p. case p of
                   DepotRef \<Rightarrow> \<lparr>point_x = depot_lon options, point_y = depot_lat options,
                                demand = Fin 0, distances = Map.empty\<rparr>
                 | CustRef i \<Rightarrow> fromCustomer (customers options ! i));
          ps = map CustRef order;
          st = foldl (pointStep gd ps DepotRef) (ph0, NInf) ps;
          ph = fst st
      in \<lparr>cw_points = ps,
          maxDistance = options_maxDistance options,
          cw_depot = DepotRef,
          solutions = [],
          savings_list = [],
          joinedRoutes = {},
          averageDemand =
            jdiv (foldl (\<lambda>sum point. jadd sum (demand (ph point))) (Fin 0) ps)
                 (Fin (real (length ps))),
          maxDemand =
            foldl (\<lambda>mx point. if jlt mx (demand (ph point)) then demand (ph point) else mx) NInf ps,
          maxPointDistance = snd st,
          pointHeap = ph,
          routeHeap = (\<lambda>n. \<lparr>points = [], depot = DepotRef, route_id = n\<rparr>),
          routeIdCounter = idCounter\<rparr>)"

section \<open>Savings\<close>

definition angle :: "Point \<Rightarrow> Point \<Rightarrow> Point \<Rightarrow> jsnum" where
  "angle p0 p1 p2 =
     (let a = jadd (jpow2 (jsub (point_x p1) (point_x p0))) (jpow2 (jsub (point_y p1) (point_y p0)));
          b = jadd (jpow2 (jsub (point_x p1) (point_x p2))) (jpow2 (jsub (point_y p1) (point_y p2)));
          c = jadd (jpow2 (jsub (point_x p2) (point_x p0))) (jpow2 (jsub (point_y p2) (point_y p0)))
      in jcos (jacos (jdiv (jsub (jadd a b) c) (jsqrt (jmul (jmul (Fin 4) a) b)))))"

text \<open>The local \<open>distance\<close> of \<open>verifyRouteJoin\<close>, and the function itself.\<close>

definition joinDistance :: "ClarkeWrightProblem \<Rightarrow> nat \<Rightarrow> nat \<Rightarrow> jsnum" where
  "joinDistance s a b =
     (let ph = pointHeap s; ra = routeHeap s a; rb = routeHeap s b
      in jsub (jadd (jadd (jsub (totalDistance ph ra)
                                (getDistanceTo ph (getEnd ra) (cw_depot s)))
                          (getDistanceTo ph (getEnd ra) (getStart rb)))
                    (totalDistance ph rb))
              (getDistanceTo ph (getStart rb) (cw_depot s)))"

definition verifyRouteJoin :: "ClarkeWrightProblem \<Rightarrow> nat \<Rightarrow> nat \<Rightarrow> bool" where
  "verifyRouteJoin s a b = jlt (joinDistance s a b) (maxDistance s)"

definition calculateSavings :: "ClarkeWrightProblem \<Rightarrow> nat \<Rightarrow> nat \<Rightarrow> CWWeights \<Rightarrow> jsnum" where
  "calculateSavings s a b weights =
     (let ph = pointHeap s;
          customerA = getEnd (routeHeap s a);
          customerB = getStart (routeHeap s b);
          distDA = getDistanceTo ph (cw_depot s) customerA;
          distDB = getDistanceTo ph (cw_depot s) customerB;
          distAB = getDistanceTo ph customerA customerB;
          savingsAdjacency =
            jdiv (jsub (jadd distDA distDB) (jmul (adjacency weights) distAB)) (maxPointDistance s);
          savingsAsymmetry =
            jdiv (jmul (asymmetry weights)
                    (jmul (angle (ph customerA) (ph (cw_depot s)) (ph customerB))
                          (jabs (jsub (maxPointDistance s) (jdiv (jsub distDA distDB) (Fin 2))))))
                 (maxPointDistance s);
          savingsDemand =
            jdiv (jmul (demandWeight weights)
                    (jabs (jsub (averageDemand s)
                       (jdiv (jadd (demand (ph customerA)) (demand (ph customerB))) (Fin 2)))))
                 (maxDemand s)
      in jadd (jadd savingsAdjacency savingsAsymmetry) savingsDemand)"

text \<open>The callback of the inner \<open>forEach\<close>: the entry pushed for \<open>route\<close> and \<open>otherRoute\<close>, if any.\<close>

definition savingsPair :: "ClarkeWrightProblem \<Rightarrow> CWWeights \<Rightarrow> nat \<Rightarrow> nat \<Rightarrow> Savings option" where
  "savingsPair s weights route otherRoute =
     (if otherRoute = route then None
      else
        let savingsAB = calculateSavings s route otherRoute weights;
            savingsBA = calculateSavings s otherRoute route weights;
            a = (if jgt savingsAB savingsBA then route else otherRoute);
            b = (if a = route then otherRoute else route);
            sv = jmax savingsAB savingsBA
        in if jlt sv (minSavings weights) then None
           else if verifyRouteJoin s a b then Some \<lparr>savings = sv, routeA = a, routeB = b\<rparr>
           else None)"

text \<open>
  \<open>Array.prototype.sort\<close> with a comparison function: \<open>x\<close> goes after \<open>y\<close> when the comparison
  is positive, and a \<open>NaN\<close> comparison counts as zero.  ECMAScript fixes the result for a
  consistent comparison (the sort is stable); for any other the order is left to the engine,
  which still returns a permutation.  The model is the stable insertion sort.
\<close>

fun sortInsert :: "('a \<Rightarrow> 'a \<Rightarrow> jsnum) \<Rightarrow> 'a \<Rightarrow> 'a list \<Rightarrow> 'a list" where
  "sortInsert cmp v [] = [v]"
| "sortInsert cmp v (u # us) =
     (if jgt (cmp v u) (Fin 0) then u # sortInsert cmp v us else v # u # us)"

definition jsSort :: "('a \<Rightarrow> 'a \<Rightarrow> jsnum) \<Rightarrow> 'a list \<Rightarrow> 'a list" where
  "jsSort cmp xs = foldr (sortInsert cmp) xs []"

definition savingsPairs :: "ClarkeWrightProblem \<Rightarrow> CWWeights \<Rightarrow> Savings list" where
  "savingsPairs s weights =
     concat (map (\<lambda>route. List.map_filter (savingsPair s weights route) (solutions s))
                 (solutions s))"

definition findAllRouteSavingsPairs :: "ClarkeWrightProblem \<Rightarrow> CWWeights \<Rightarrow> ClarkeWrightProblem" where
  "findAllRouteSavingsPairs s weights =
     s\<lparr>savings_list :=
         jsSort (\<lambda>a b. jsub (savings b) (savings a)) (savingsPairs s weights)\<rparr>"

section \<open>Joining routes\<close>

text \<open>\<open>joinRoute\<close> on the route heap: the receiver \<open>a\<close> gets the points of \<open>b\<close> after the first.\<close>

definition joinRoute :: "(nat \<Rightarrow> Route) \<Rightarrow> nat \<Rightarrow> nat \<Rightarrow> (nat \<Rightarrow> Route)" where
  "joinRoute rh a b = rh(a := (rh a)\<lparr>points := points (rh a) @ drop 1 (points (rh b))\<rparr>)"

text \<open>
  \<open>xs.splice(xs.indexOf(v), 1)\<close>: the first occurrence of \<open>v\<close> goes; when there is none,
  \<open>indexOf\<close> is \<open>-1\<close> and the last element goes.
\<close>

definition spliceOut :: "'a \<Rightarrow> 'a list \<Rightarrow> 'a list" where
  "spliceOut v xs = (if v \<in> set xs then remove1 v xs else butlast xs)"

text \<open>\<open>joinRoutes\<close>; no caller reads the boolean it returns.\<close>

definition joinRoutes :: "ClarkeWrightProblem \<Rightarrow> nat \<Rightarrow> nat \<Rightarrow> ClarkeWrightProblem" where
  "joinRoutes s a b =
     (if \<not> verifyRouteJoin s a b then s
      else
        let rh = joinRoute (routeHeap s) a b
        in s\<lparr>routeHeap := rh,
             joinedRoutes := insert (route_id (rh b)) (insert (route_id (rh a)) (joinedRoutes s)),
             solutions := spliceOut b (solutions s)\<rparr>)"

text \<open>The body of the loop over the savings entries.\<close>

definition mergeStep :: "ClarkeWrightProblem \<Rightarrow> Savings \<Rightarrow> ClarkeWrightProblem" where
  "mergeStep s sv =
     (let a = routeA sv; b = routeB sv; rh = routeHeap s
      in if route_id (rh a) \<notin> joinedRoutes s \<and> route_id (rh b) \<notin> joinedRoutes s
         then joinRoutes s a b
         else if route_id (rh a) \<notin> joinedRoutes s
         then (if solutions s \<noteq> [] \<and> getStart (rh (solutions s ! 0)) = getStart (rh b)
               then joinRoutes s a (solutions s ! 0) else s)
         else if route_id (rh b) \<notin> joinedRoutes s
         then (if solutions s \<noteq> [] \<and> getEnd (rh (solutions s ! 0)) = getEnd (rh a)
               then joinRoutes s (solutions s ! 0) b else s)
         else s)"

definition optimiseAll :: "ClarkeWrightProblem \<Rightarrow> ClarkeWrightProblem" where
  "optimiseAll s =
     s\<lparr>routeHeap :=
         foldl (\<lambda>rh solution. rh(solution := optimise (pointHeap s) 100 (rh solution)))
           (routeHeap s) (solutions s)\<rparr>"

text \<open>One pass of the \<open>while\<close> loop of \<open>solve\<close>.\<close>

definition solveRound :: "CWWeights \<Rightarrow> bool \<Rightarrow> ClarkeWrightProblem \<Rightarrow> ClarkeWrightProblem" where
  "solveRound weights opt s =
     (let s1 = foldl mergeStep s (savings_list s);
          s2 = (if opt then optimiseAll s1 else s1)
      in findAllRouteSavingsPairs (s2\<lparr>joinedRoutes := {}\<rparr>) weights)"

text \<open>
  The \<open>while\<close> loop, with fuel: \<open>None\<close> when the fuel runs out before the savings do (fuel above
  the number of customers never runs out, see \<open>solve_returns\<close> below).
\<close>

primrec solveLoop ::
  "nat \<Rightarrow> CWWeights \<Rightarrow> bool \<Rightarrow> ClarkeWrightProblem \<Rightarrow> ClarkeWrightProblem option" where
  "solveLoop 0 weights opt s = None"
| "solveLoop (Suc fuel) weights opt s =
     (if savings_list s = [] then Some s else solveLoop fuel weights opt (solveRound weights opt s))"

text \<open>The first statement of \<open>solve\<close>: one new route per point.\<close>

definition createRoute :: "ClarkeWrightProblem \<Rightarrow> point_ref \<Rightarrow> ClarkeWrightProblem" where
  "createRoute s point =
     s\<lparr>routeHeap := (routeHeap s)(routeIdCounter s := newRoute point (cw_depot s) (routeIdCounter s)),
       solutions := solutions s @ [routeIdCounter s],
       routeIdCounter := routeIdCounter s + 1\<rparr>"

definition createRoutes :: "ClarkeWrightProblem \<Rightarrow> ClarkeWrightProblem" where
  "createRoutes s = foldl createRoute (s\<lparr>solutions := []\<rparr>) (cw_points s)"

definition demandDensity :: "point_heap \<Rightarrow> Route \<Rightarrow> jsnum" where
  "demandDensity ph r = jdiv (totalDemand ph r) (totalDistance ph r)"

text \<open>\<open>solve\<close> returns the route objects, in the state the loop left them in.\<close>

definition solve ::
  "nat \<Rightarrow> ClarkeWrightProblem \<Rightarrow> CWWeights \<Rightarrow> bool \<Rightarrow> Route list option" where
  "solve fuel p weights opt =
     (case solveLoop fuel weights opt (findAllRouteSavingsPairs (createRoutes p) weights) of
        None \<Rightarrow> None
      | Some s \<Rightarrow>
          Some (jsSort (\<lambda>a b. jsub (demandDensity (pointHeap s) b) (demandDensity (pointHeap s) a))
                  (filter (\<lambda>route. jlt (totalDistance (pointHeap s) route) (maxDistance s))
                     (map (routeHeap s) (solutions s)))))"

section \<open>Notions of the specification\<close>

text \<open>
  The value \<open>bestDistance\<close> holds when pass \<open>k\<close> of \<open>optimise\<close> is compared: the initial value
  \<open>b\<close> for the first pass, the distance the pass before returned otherwise.
\<close>

definition previousDistance :: "jsnum \<Rightarrow> jsnum list \<Rightarrow> nat \<Rightarrow> jsnum" where
  "previousDistance b ds k = (if k = 0 then b else ds ! (k - 1))"

text \<open>
  The comparison \<open>twoOpt\<close> makes for the index pair \<open>(i, j)\<close>: for the last index \<open>j\<close> the edge
  leads back to the first point.  A reversal is improving when the comparison holds.
\<close>

definition improves :: "point_heap \<Rightarrow> point_ref list \<Rightarrow> nat \<Rightarrow> nat \<Rightarrow> bool" where
  "improves ph ps i j =
     (if j + 1 < length ps then improvesInner ph ps i j else improvesWrap ph ps i j)"

text \<open>
  A locally optimal route: no index pair that \<open>twoOpt\<close> scans (\<open>i + 2 \<le> j\<close>, \<open>j\<close> an index of
  the sequence) has an improving reversal.
\<close>

definition locallyOptimal :: "point_heap \<Rightarrow> point_ref list \<Rightarrow> bool" where
  "locallyOptimal ph ps =
     (\<forall>j \<in> {0..<length ps}. \<forall>i \<in> {0..<j}. i + 2 \<le> j \<longrightarrow> \<not> improves ph ps i j)"

text \<open>The pair \<open>(i, j)\<close> is the first one, in the order of the scan, with an improving reversal.\<close>

definition firstImproving :: "point_heap \<Rightarrow> point_ref list \<Rightarrow> nat \<Rightarrow> nat \<Rightarrow> bool" where
  "firstImproving ph ps i j =
     (i + 2 \<le> j \<and> j < length ps \<and> improves ph ps i j \<and>
      (\<forall>j' \<in> {0..<length ps}. \<forall>i' \<in> {0..<j'}.
         i' + 2 \<le> j' \<and> (i' < i \<or> (i' = i \<and> j' < j)) \<longrightarrow> \<not> improves ph ps i' j'))"

text \<open>
  The sum of the demands of a route as a sum of real numbers, without rounding; and the routes
  whose demands are natural numbers with a sum below \<open>2^53\<close>, for which no addition rounds.
\<close>

definition exactDemand :: "point_heap \<Rightarrow> Route \<Rightarrow> jsnum" where
  "exactDemand ph r =
     foldl (\<lambda>sum point. jadd sum (if point = depot r then Fin 0 else demand (ph point)))
       (Fin 0) (points r)"

fun safeNatural :: "jsnum \<Rightarrow> bool" where
  "safeNatural (Fin a) = (0 \<le> a \<and> of_int \<lfloor>a\<rfloor> = a \<and> a < 2 ^ 53)"
| "safeNatural x = False"

definition naturalDemands :: "point_heap \<Rightarrow> Route \<Rightarrow> bool" where
  "naturalDemands ph r =
     ((\<forall>q \<in> set (points r). q \<noteq> depot r \<longrightarrow> safeNatural (demand (ph q))) \<and>
      safeNatural (exactDemand ph r))"


text \<open>
  The estimate of the merged distance as the specification writes it, with the depot leg of
  the second route taken from the depot: \<open>totalDistance(A) - d(A_end, depot) + d(A_end, B_start)
  + totalDistance(B) - d(depot, B_start)\<close>.
\<close>

definition joinEstimate :: "point_heap \<Rightarrow> point_ref \<Rightarrow> Route \<Rightarrow> Route \<Rightarrow> jsnum" where
  "joinEstimate ph dep ra rb =
     jsub (jadd (jadd (jsub (totalDistance ph ra) (getDistanceTo ph (getEnd ra) dep))
                      (getDistanceTo ph (getEnd ra) (getStart rb)))
                (totalDistance ph rb))
          (getDistanceTo ph dep (getStart rb))"

text \<open>
  The non-depot points of a route, those of all active routes in order, and the partition of
  the customers: every customer point occurs in the active routes, and no point occurs twice.
\<close>

definition customersOf :: "point_ref \<Rightarrow> Route \<Rightarrow> point_ref list" where
  "customersOf dep r = filter (\<lambda>p. p \<noteq> dep) (points r)"

definition activeCustomers :: "ClarkeWrightProblem \<Rightarrow> point_ref list" where
  "activeCustomers s =
     concat (map (\<lambda>r. customersOf (cw_depot s) (routeHeap s r)) (solutions s))"

definition partitionsCustomers :: "ClarkeWrightProblem \<Rightarrow> bool" where
  "partitionsCustomers s =
     (distinct (activeCustomers s) \<and> set (activeCustomers s) = set (cw_points s))"

text \<open>The state at the start of round \<open>n\<close> of the loop of \<open>solve\<close> (after the scoring).\<close>

definition stateAfterRounds ::
  "nat \<Rightarrow> ClarkeWrightProblem \<Rightarrow> CWWeights \<Rightarrow> bool \<Rightarrow> ClarkeWrightProblem" where
  "stateAfterRounds n p weights opt =
     (solveRound weights opt ^^ n) (findAllRouteSavingsPairs (createRoutes p) weights)"

section \<open>Invariants of the merge loop\<close>

text \<open>A route that starts at the depot and then visits at least one point, none of them the depot.\<close>

definition wellFormedRoute :: "point_ref \<Rightarrow> Route \<Rightarrow> bool" where
  "wellFormedRoute dep r =
     (points r \<noteq> [] \<and> hd (points r) = dep \<and> tl (points r) \<noteq> [] \<and> dep \<notin> set (tl (points r)))"

text \<open>
  What holds of the active routes at every moment: their references are distinct, their
  customers are the customers of the problem, each once, and each route is well formed and
  stored under its identifier.
\<close>

definition roundInvariant :: "ClarkeWrightProblem \<Rightarrow> bool" where
  "roundInvariant s =
     (distinct (cw_points s) \<and> distinct (solutions s) \<and>
      mset (activeCustomers s) = mset (cw_points s) \<and>
      (\<forall>r \<in> set (solutions s).
         wellFormedRoute (cw_depot s) (routeHeap s r) \<and> route_id (routeHeap s r) = r))"

text \<open>
  What holds of the routes the savings entries of the round refer to: such a route is active,
  or it is marked as joined and its customers have gone to active routes marked as joined.
\<close>

definition joinedCustomers :: "ClarkeWrightProblem \<Rightarrow> point_ref set" where
  "joinedCustomers s =
     (\<Union>r \<in> set (solutions s) \<inter> joinedRoutes s. set (customersOf (cw_depot s) (routeHeap s r)))"

definition candidateRoute :: "ClarkeWrightProblem \<Rightarrow> nat \<Rightarrow> bool" where
  "candidateRoute s r =
     (route_id (routeHeap s r) = r \<and> wellFormedRoute (cw_depot s) (routeHeap s r) \<and>
      (r \<in> set (solutions s) \<or>
       (r \<in> joinedRoutes s \<and> set (customersOf (cw_depot s) (routeHeap s r)) \<subseteq> joinedCustomers s)))"

definition candidatesInvariant :: "ClarkeWrightProblem \<Rightarrow> Savings list \<Rightarrow> bool" where
  "candidatesInvariant s cands =
     (\<forall>c \<in> set cands. routeA c \<noteq> routeB c \<and> candidateRoute s (routeA c) \<and> candidateRoute s (routeB c))"

text \<open>Two routes with the same stops: the same points up to order, the same first point.\<close>

definition sameStops :: "Route \<Rightarrow> Route \<Rightarrow> bool" where
  "sameStops r r' =
     (mset (points r') = mset (points r) \<and> points r' ! 0 = points r ! 0 \<and>
      route_id r' = route_id r)"

text \<open>The depot's distance table agrees with the tables of the other points.\<close>

definition depotSymmetric :: "point_heap \<Rightarrow> bool" where
  "depotSymmetric ph = (\<forall>q. distances (ph DepotRef) q = distances (ph q) DepotRef)"

text \<open>
  A state at the start of a round: no route is marked, and every savings entry passes the
  feasibility check in this very state.
\<close>

definition freshRound :: "ClarkeWrightProblem \<Rightarrow> bool" where
  "freshRound s =
     (joinedRoutes s = {} \<and>
      (savings_list s \<noteq> [] \<longrightarrow> solutions s \<noteq> []) \<and>
      (\<forall>c \<in> set (savings_list s). verifyRouteJoin s (routeA c) (routeB c)))"

section \<open>Example inputs\<close>

text \<open>Points on a line: the depot at 0, customer \<open>i\<close> at \<open>i + 1\<close>, every distance populated.\<close>

definition linePosition :: "point_ref \<Rightarrow> real" where
  "linePosition p = (case p of DepotRef \<Rightarrow> 0 | CustRef i \<Rightarrow> real i + 1)"

definition lineHeap :: point_heap where
  "lineHeap p =
     \<lparr>point_x = Fin 0, point_y = Fin (linePosition p), demand = Fin 5,
      distances = (\<lambda>q. Some (Fin \<bar>linePosition p - linePosition q\<bar>))\<rparr>"

text \<open>A route that visits customer 1 before customer 0.\<close>

definition crossedRoute :: Route where
  "crossedRoute =
     \<lparr>points = [DepotRef, CustRef 1, CustRef 0, CustRef 2], depot = DepotRef, route_id = 0\<rparr>"

text \<open>
  The same line with demands that are not integers: the doubles nearest to 0.1, 0.2 and 0.3
  for the customers 0, 1 and 2, and 0 for the others; and a route that visits the first three
  customers in reverse.
\<close>

definition oneTenth :: real where
  "oneTenth = 3602879701896397 / 2 ^ 55"

definition oneFifth :: real where
  "oneFifth = 3602879701896397 / 2 ^ 54"

definition threeTenths :: real where
  "threeTenths = 5404319552844595 / 2 ^ 54"

definition fractionHeap :: point_heap where
  "fractionHeap p =
     (lineHeap p)\<lparr>demand := Fin (case p of DepotRef \<Rightarrow> 0
        | CustRef i \<Rightarrow> if i = 0 then oneTenth else if i = 1 then oneFifth
                       else if i = 2 then threeTenths else 0)\<rparr>"

definition reversedRoute :: Route where
  "reversedRoute =
     \<lparr>points = [DepotRef, CustRef 2, CustRef 1, CustRef 0, CustRef 3], depot = DepotRef,
      route_id = 0\<rparr>"

text \<open>A route heap of singleton routes.\<close>

definition singletonHeap :: "nat \<Rightarrow> Route" where
  "singletonHeap n = newRoute (CustRef n) DepotRef n"

text \<open>The same customers in the order of their positions.\<close>

definition orderedRoute :: Route where
  "orderedRoute =
     \<lparr>points = [DepotRef, CustRef 0, CustRef 1, CustRef 2], depot = DepotRef, route_id = 0\<rparr>"


text \<open>
  Problems built by the constructor.  The distance function measures along the second
  coordinate; the weights are all 1 with no minimum.  In the first problem customer 0 lies on
  the depot, in the second the customers lie at 1 and 2.  The states of the second problem
  that \<open>solve\<close> passes through follow.
\<close>

definition gdY :: distance_fn where
  "gdY p q = jabs (jsub (snd p) (snd q))"

definition unitWeights :: CWWeights where
  "unitWeights = \<lparr>adjacency = Fin 1, asymmetry = Fin 1, demandWeight = Fin 1, minSavings = Fin 0\<rparr>"

definition depotCustomerOptions :: ClarkeWrightProblemOptions where
  "depotCustomerOptions =
     \<lparr>customers = [\<lparr>lon = Fin 0, lat = Fin 0, customer_demand = Fin 1\<rparr>,
                   \<lparr>lon = Fin 0, lat = Fin 1, customer_demand = Fin 1\<rparr>],
      depot_lon = Fin 0, depot_lat = Fin 0, options_maxDistance = Fin 10\<rparr>"

definition depotCustomerProblem :: ClarkeWrightProblem where
  "depotCustomerProblem = constructor gdY [0, 1] 0 depotCustomerOptions"

definition depotCustomerRoutes :: "nat \<Rightarrow> Route" where
  "depotCustomerRoutes = (routeHeap depotCustomerProblem)
     (0 := \<lparr>points = [DepotRef, CustRef 0], depot = DepotRef, route_id = 0\<rparr>,
      1 := \<lparr>points = [DepotRef, CustRef 1], depot = DepotRef, route_id = 1\<rparr>)"

definition twoCustomerOptions :: ClarkeWrightProblemOptions where
  "twoCustomerOptions =
     \<lparr>customers = [\<lparr>lon = Fin 0, lat = Fin 1, customer_demand = Fin 5\<rparr>,
                   \<lparr>lon = Fin 0, lat = Fin 2, customer_demand = Fin 5\<rparr>],
      depot_lon = Fin 0, depot_lat = Fin 0, options_maxDistance = Fin 10\<rparr>"

definition twoCustomerProblem :: ClarkeWrightProblem where
  "twoCustomerProblem = constructor gdY [0, 1] 0 twoCustomerOptions"

definition twoCustomerRoutes :: "nat \<Rightarrow> Route" where
  "twoCustomerRoutes = (routeHeap twoCustomerProblem)
     (0 := \<lparr>points = [DepotRef, CustRef 0], depot = DepotRef, route_id = 0\<rparr>,
      1 := \<lparr>points = [DepotRef, CustRef 1], depot = DepotRef, route_id = 1\<rparr>)"

definition twoCustomerScored :: ClarkeWrightProblem where
  "twoCustomerScored = twoCustomerProblem
     \<lparr>solutions := [0, 1], routeHeap := twoCustomerRoutes, routeIdCounter := 2,
      savings_list := [\<lparr>savings = Fin (7 / 2), routeA = 0, routeB = 1\<rparr>,
                       \<lparr>savings = Fin (7 / 2), routeA = 0, routeB = 1\<rparr>]\<rparr>"

definition twoCustomerMergedRoutes :: "nat \<Rightarrow> Route" where
  "twoCustomerMergedRoutes = (routeHeap twoCustomerProblem)
     (1 := \<lparr>points = [DepotRef, CustRef 1], depot = DepotRef, route_id = 1\<rparr>,
      0 := \<lparr>points = [DepotRef, CustRef 0, CustRef 1], depot = DepotRef, route_id = 0\<rparr>)"

definition twoCustomerMerged :: ClarkeWrightProblem where
  "twoCustomerMerged = twoCustomerProblem
     \<lparr>routeIdCounter := 2,
      savings_list := [\<lparr>savings = Fin (7 / 2), routeA = 0, routeB = 1\<rparr>,
                       \<lparr>savings = Fin (7 / 2), routeA = 0, routeB = 1\<rparr>],
      routeHeap := twoCustomerMergedRoutes, joinedRoutes := {1, 0}, solutions := [0]\<rparr>"

definition twoCustomerFinal :: ClarkeWrightProblem where
  "twoCustomerFinal = twoCustomerProblem
     \<lparr>routeIdCounter := 2, routeHeap := twoCustomerMergedRoutes, solutions := [0], joinedRoutes := {},
      savings_list := []\<rparr>"

section \<open>Arithmetic of the number model\<close>

lemma jadd_commute: "jadd a b = jadd b a"
  by (cases a; cases b) simp_all

lemma jadd_assoc: "jadd (jadd a b) c = jadd a (jadd b c)"
  by (cases a; cases b; cases c) simp_all

lemma jadd_zero_right: "jadd a (Fin 0) = a"
  by (cases a) simp_all

lemma jadd_zero_left: "jadd (Fin 0) a = a"
  by (cases a) simp_all


text \<open>Rounding: the nearest integer, the exponent of a binade, and the error of a rounding.\<close>

lemma roundHalfEven_near:
  assumes "of_int n - 1 / 2 < x" "x < of_int n + 1 / 2"
  shows "roundHalfEven x = n"
proof (cases "of_int n \<le> x")
  case True
  with assms have "\<lfloor>x\<rfloor> = n" by (intro floor_unique) simp_all
  with assms show ?thesis by (simp add: roundHalfEven_def Let_def)
next
  case False
  with assms have "\<lfloor>x\<rfloor> = n - 1" by (intro floor_unique) simp_all
  with assms show ?thesis by (simp add: roundHalfEven_def Let_def)
qed

lemma roundHalfEven_of_int [simp]: "roundHalfEven (of_int n) = n"
  by (rule roundHalfEven_near) simp_all

lemma roundHalfEven_zero [simp]: "roundHalfEven 0 = 0"
  using roundHalfEven_of_int[of 0] by simp

lemma roundHalfEven_err: "\<bar>of_int (roundHalfEven x) - x\<bar> \<le> 1 / 2"
proof -
  have "of_int \<lfloor>x\<rfloor> \<le> x" "x < of_int \<lfloor>x\<rfloor> + 1" by linarith+
  then show ?thesis by (auto simp add: roundHalfEven_def Let_def)
qed

lemma roundDouble_zero [simp]: "roundDouble 0 = 0"
  by (simp add: roundDouble_def)

lemma floor_log2_iff:
  assumes "0 < x"
  shows "(\<lfloor>log 2 x\<rfloor> = k) = (2 powi k \<le> x \<and> x < 2 powi (k + 1))"
proof -
  have "(2::real) powr real_of_int k = 2 powi k"
    using powr_real_of_int'[of 2 k] by simp
  moreover have "(2::real) powr (real_of_int k + 1) = 2 powi (k + 1)"
    using powr_real_of_int'[of 2 "k + 1"] by simp
  ultimately show ?thesis
    using floor_log_eq_powr_iff[of x 2 k] assms by simp
qed

lemma ulpExponent_normal:
  assumes "2 powi k \<le> \<bar>x\<bar>" "\<bar>x\<bar> < 2 powi (k + 1)" "- 1022 \<le> k"
  shows "ulpExponent x = k - 52"
proof -
  have pos: "0 < \<bar>x\<bar>"
    using assms(1) by (smt (verit) zero_less_power_int)
  have "\<lfloor>log 2 \<bar>x\<bar>\<rfloor> = k"
    using assms pos by (simp add: floor_log2_iff)
  with assms(3) show ?thesis
    by (simp add: ulpExponent_def)
qed

lemma roundDouble_normal:
  assumes "2 powi k \<le> \<bar>x\<bar>" "\<bar>x\<bar> < 2 powi (k + 1)" "- 1022 \<le> k"
  shows "roundDouble x = of_int (roundHalfEven (x / 2 powi (k - 52))) * 2 powi (k - 52)"
  by (simp add: roundDouble_def ulpExponent_normal[OF assms])

lemma ulpExponent_le:
  assumes "\<bar>x\<bar> < 2 powi (k + 1)" "- 1022 \<le> k" "x \<noteq> 0"
  shows "ulpExponent x \<le> k - 52"
proof -
  define j where "j = \<lfloor>log 2 \<bar>x\<bar>\<rfloor>"
  have "2 powi j \<le> \<bar>x\<bar>"
    using floor_log2_iff[of "\<bar>x\<bar>" j] assms(3) by (simp add: j_def)
  with assms(1) have lt: "(2::real) powi j < 2 powi (k + 1)" by simp
  have "j < k + 1"
  proof (rule ccontr)
    assume "\<not> j < k + 1"
    then have "(2::real) powi (k + 1) \<le> 2 powi j" by (intro power_int_increasing) simp_all
    with lt show False by simp
  qed
  with assms(2) show ?thesis by (simp add: ulpExponent_def j_def)
qed

lemma roundDouble_err:
  assumes "\<bar>x\<bar> < 2 powi (k + 1)" "- 1022 \<le> k"
  shows "\<bar>roundDouble x - x\<bar> \<le> 2 powi (k - 53)"
proof (cases "x = 0")
  case True
  then show ?thesis by simp
next
  case False
  define e where "e = ulpExponent x"
  have e: "e \<le> k - 52" unfolding e_def using assms False by (rule ulpExponent_le)
  have p: "(0::real) < 2 powi e" by simp
  have "roundDouble x - x = (of_int (roundHalfEven (x / 2 powi e)) - x / 2 powi e) * 2 powi e"
    using p by (simp add: roundDouble_def e_def field_simps)
  then have "\<bar>roundDouble x - x\<bar> = \<bar>of_int (roundHalfEven (x / 2 powi e)) - x / 2 powi e\<bar> * 2 powi e"
    using p by (simp add: abs_mult)
  also have "\<dots> \<le> 1 / 2 * 2 powi e"
    using roundHalfEven_err[of "x / 2 powi e"] p by (intro mult_right_mono) simp_all
  also have "\<dots> = 2 powi (e - 1)"
    by (simp add: power_int_diff)
  also have "\<dots> \<le> 2 powi (k - 53)"
    using e by (intro power_int_increasing) simp_all
  finally show ?thesis .
qed

lemma roundDouble_nat:
  assumes "n < 2 ^ 53"
  shows "roundDouble (real n) = real n"
proof (cases "n = 0")
  case True
  then show ?thesis by simp
next
  case False
  define k where "k = \<lfloor>log 2 (real n)\<rfloor>"
  have n: "0 < real n" using False by simp
  have kb: "2 powi k \<le> real n" "real n < 2 powi (k + 1)"
    using floor_log2_iff[of "real n" k] n by (simp_all add: k_def)
  have k0: "0 \<le> k"
    using False by (simp add: k_def)
  have k52: "k \<le> 52"
  proof (rule ccontr)
    assume "\<not> k \<le> 52"
    then have "53 \<le> k" by simp
    then have "(2::real) powi 53 \<le> 2 powi k" by (intro power_int_increasing) simp_all
    with kb(1) have "(2::real) ^ 53 \<le> real n" by simp
    moreover have "real n < 2 ^ 53" using assms by (metis of_nat_less_iff of_nat_numeral of_nat_power)
    ultimately show False by simp
  qed
  have rd: "roundDouble (real n) = of_int (roundHalfEven (real n / 2 powi (k - 52))) * 2 powi (k - 52)"
    using kb k0 by (intro roundDouble_normal) simp_all
  have "real n / 2 powi (k - 52) = real n * 2 ^ nat (52 - k)"
    using k52 by (simp add: power_int_def field_simps)
  also have "\<dots> = of_int (int n * 2 ^ nat (52 - k))" by simp
  finally have q: "real n / 2 powi (k - 52) = of_int (int n * 2 ^ nat (52 - k))" .
  have "roundDouble (real n) = of_int (int n * 2 ^ nat (52 - k)) * 2 powi (k - 52)"
    unfolding rd q roundHalfEven_of_int ..
  also have "\<dots> = real n"
    using k52 by (simp add: power_int_def field_simps)
  finally show ?thesis .
qed

lemma roundDouble_one [simp]: "roundDouble 1 = 1"
  using roundDouble_nat[of 1] by simp


lemma toNumber_finite:
  assumes "\<bar>roundDouble x\<bar> < 2 ^ 1024"
  shows "toNumber x = Fin (roundDouble x)"
proof -
  define c :: real where "c = 2 ^ 1024"
  from assms have "\<bar>roundDouble x\<bar> < c" by (simp add: c_def)
  then have "\<not> c \<le> roundDouble x" "\<not> roundDouble x \<le> - c" by linarith+
  then show ?thesis
    unfolding toNumber_def Let_def c_def by simp
qed

lemma toNumber_bounded:
  assumes "\<bar>x\<bar> \<le> 4"
  shows "toNumber x = Fin (roundDouble x)"
proof -
  have "\<bar>roundDouble x - x\<bar> \<le> 2 powi (2 - 53)"
    using assms by (intro roundDouble_err) simp_all
  also have "\<dots> \<le> (1::real)"
    by simp
  finally have "\<bar>roundDouble x\<bar> \<le> 5"
    using assms by linarith
  also have "(5::real) < 2 ^ 1024"
    by simp
  finally show ?thesis
    by (rule toNumber_finite)
qed

lemma toNumber_zero [simp]: "toNumber 0 = Fin 0"
  by (simp add: toNumber_finite)

lemma toNumber_one [simp]: "toNumber 1 = Fin 1"
  by (simp add: toNumber_finite)

lemma toNumber_nat: "n < 2 ^ 53 \<Longrightarrow> toNumber (real n) = Fin (real n)"
proof -
  assume n: "n < 2 ^ 53"
  then have "real n < 2 ^ 53"
    by (metis of_nat_less_iff of_nat_numeral of_nat_power)
  also have "(2::real) ^ 53 < 2 ^ 1024"
    by (intro power_strict_increasing) simp_all
  finally show ?thesis
    using roundDouble_nat[OF n] by (simp add: toNumber_finite)
qed

lemma toNumber_numeral [simp]:
  "(numeral n :: nat) < 2 ^ 53 \<Longrightarrow> toNumber (numeral n) = Fin (numeral n)"
  using toNumber_nat[of "numeral n"] by simp

lemma dadd_Fin: "dadd (Fin a) (Fin b) = toNumber (a + b)"
  by (simp add: dadd_def)

lemma dadd_round:
  assumes "a + b = x" "2 powi k \<le> \<bar>x\<bar>" "\<bar>x\<bar> < 2 powi (k + 1)" "- 1022 \<le> k" "k \<le> 0"
    and "roundHalfEven (x / 2 powi (k - 52)) = n" "of_int n * 2 powi (k - 52) = y"
  shows "dadd (Fin a) (Fin b) = Fin y"
proof -
  have "(2::real) powi (k + 1) \<le> 2 powi 1"
    using assms(5) by (intro power_int_increasing) simp_all
  with assms(3) have "\<bar>x\<bar> \<le> 4" by simp
  then have "toNumber x = Fin (roundDouble x)"
    by (rule toNumber_bounded)
  also have "roundDouble x = y"
    using roundDouble_normal[OF assms(2,3,4)] assms(6,7) by simp
  finally show ?thesis
    by (simp add: dadd_Fin assms(1))
qed










section \<open>Evaluation of the examples\<close>

lemma linePosition_simps [simp]:
  "linePosition DepotRef = 0" "linePosition (CustRef i) = real i + 1"
  by (simp_all add: linePosition_def)

lemma lineHeap_distance [simp]:
  "getDistanceTo lineHeap p q = Fin \<bar>linePosition p - linePosition q\<bar>"
  by (simp add: getDistanceTo_def lineHeap_def)

lemma lineHeap_demand [simp]: "demand (lineHeap p) = Fin 5"
  by (simp add: lineHeap_def)

lemmas twoOpt_eval =
  twoOpt_def twoOptOuter.simps twoOptInner.simps improvesInner_def improvesWrap_def jgt_def
  twoOptSwap_def slice_def totalDistance_def distanceStep_def Let_def

lemma crossed_twoOpt:
  "twoOpt lineHeap crossedRoute =
     (Fin 6, crossedRoute\<lparr>points := [DepotRef, CustRef 0, CustRef 1, CustRef 2]\<rparr>)"
  by (simp add: crossedRoute_def twoOpt_eval)

lemma crossed_passes: "optimisePasses lineHeap 100 (Fin 0) crossedRoute = [Fin 6, Fin 6]"
  by (simp add: numeral_eq_Suc crossedRoute_def twoOpt_eval)

lemmas constructor_eval =
  constructor_def pointStep_def pairStep_def setDistanceTo_def coords_def fromCustomer_def
  jsub_def jgt_def Let_def

lemmas savings_eval =
  findAllRouteSavingsPairs_def savingsPairs_def savingsPair_def calculateSavings_def angle_def
  verifyRouteJoin_def joinDistance_def totalDistance_def distanceStep_def
  getStart_def getEnd_def jsSort_def jpow2_def List.map_filter_def jsub_def jgt_def Let_def

lemmas merge_eval =
  mergeStep_def joinRoutes_def joinRoute_def spliceOut_def verifyRouteJoin_def joinDistance_def
  totalDistance_def distanceStep_def getStart_def getEnd_def jsub_def Let_def

lemma sqrt_16: "sqrt 16 = 4"
  by (rule real_sqrt_unique) simp_all

lemmas tc_unfold = twoCustomerProblem_def twoCustomerOptions_def gdY_def constructor_eval

lemma tc_fields [simp]:
  "cw_points twoCustomerProblem = [CustRef 0, CustRef 1]"
  "cw_depot twoCustomerProblem = DepotRef"
  "maxDistance twoCustomerProblem = Fin 10"
  "averageDemand twoCustomerProblem = Fin 5"
  "maxDemand twoCustomerProblem = Fin 5"
  "maxPointDistance twoCustomerProblem = Fin 1"
  "routeIdCounter twoCustomerProblem = 0"
  "joinedRoutes twoCustomerProblem = {}"
  by (simp_all add: tc_unfold)

lemma tc_distances [simp]:
  "getDistanceTo (pointHeap twoCustomerProblem) DepotRef (CustRef 0) = Fin 1"
  "getDistanceTo (pointHeap twoCustomerProblem) DepotRef (CustRef (Suc 0)) = Fin 2"
  "getDistanceTo (pointHeap twoCustomerProblem) (CustRef 0) DepotRef = Fin 1"
  "getDistanceTo (pointHeap twoCustomerProblem) (CustRef (Suc 0)) DepotRef = Fin 2"
  "getDistanceTo (pointHeap twoCustomerProblem) (CustRef 0) (CustRef (Suc 0)) = Fin 1"
  "getDistanceTo (pointHeap twoCustomerProblem) (CustRef (Suc 0)) (CustRef 0) = Fin 1"
  by (simp_all add: tc_unfold getDistanceTo_def)

lemma tc_points [simp]:
  "point_x (pointHeap twoCustomerProblem DepotRef) = Fin 0"
  "point_x (pointHeap twoCustomerProblem (CustRef 0)) = Fin 0"
  "point_x (pointHeap twoCustomerProblem (CustRef (Suc 0))) = Fin 0"
  "point_y (pointHeap twoCustomerProblem DepotRef) = Fin 0"
  "point_y (pointHeap twoCustomerProblem (CustRef 0)) = Fin 1"
  "point_y (pointHeap twoCustomerProblem (CustRef (Suc 0))) = Fin 2"
  "demand (pointHeap twoCustomerProblem (CustRef 0)) = Fin 5"
  "demand (pointHeap twoCustomerProblem (CustRef (Suc 0))) = Fin 5"
  by (simp_all add: tc_unfold)

lemma tc_created:
  "createRoutes twoCustomerProblem =
     twoCustomerProblem\<lparr>solutions := [0, 1], routeHeap := twoCustomerRoutes, routeIdCounter := 2\<rparr>"
  by (simp add: createRoutes_def createRoute_def newRoute_def twoCustomerRoutes_def)

lemma tc_scored: "findAllRouteSavingsPairs (createRoutes twoCustomerProblem) unitWeights = twoCustomerScored"
  unfolding tc_created twoCustomerScored_def
  by (simp add: unitWeights_def twoCustomerRoutes_def savings_eval sqrt_16)

lemma tc_merged: "foldl mergeStep twoCustomerScored (savings_list twoCustomerScored) = twoCustomerMerged"
  unfolding twoCustomerScored_def twoCustomerMerged_def
  by (simp add: twoCustomerRoutes_def twoCustomerMergedRoutes_def merge_eval)

lemma tc_optimised: "optimiseAll twoCustomerMerged = twoCustomerMerged"
  unfolding twoCustomerMerged_def
  by (simp add: twoCustomerMergedRoutes_def optimiseAll_def optimise_def numeral_eq_Suc twoOpt_eval)

lemma tc_round: "solveRound unitWeights True twoCustomerScored = twoCustomerFinal"
  unfolding solveRound_def Let_def tc_merged if_True tc_optimised
  unfolding twoCustomerMerged_def twoCustomerFinal_def
  by (simp add: savings_eval)

lemma tc_loop: "solveLoop 3 unitWeights True twoCustomerScored = Some twoCustomerFinal"
proof -
  have "savings_list twoCustomerScored \<noteq> []" by (simp add: twoCustomerScored_def)
  moreover have "savings_list twoCustomerFinal = []" by (simp add: twoCustomerFinal_def)
  ultimately show ?thesis by (simp add: numeral_3_eq_3 tc_round)
qed

lemma tc_solve:
  "solve 3 twoCustomerProblem unitWeights True =
     Some [\<lparr>points = [DepotRef, CustRef 0, CustRef 1], depot = DepotRef, route_id = 0\<rparr>]"
  unfolding solve_def tc_scored tc_loop option.case
  by (simp add: twoCustomerFinal_def twoCustomerMergedRoutes_def jsSort_def totalDistance_def distanceStep_def)

lemmas dc_unfold = depotCustomerProblem_def depotCustomerOptions_def gdY_def constructor_eval

lemma dc_fields [simp]:
  "cw_points depotCustomerProblem = [CustRef 0, CustRef 1]"
  "cw_depot depotCustomerProblem = DepotRef"
  "maxDistance depotCustomerProblem = Fin 10"
  "averageDemand depotCustomerProblem = Fin 1"
  "maxDemand depotCustomerProblem = Fin 1"
  "maxPointDistance depotCustomerProblem = Fin 1"
  "routeIdCounter depotCustomerProblem = 0"
  "joinedRoutes depotCustomerProblem = {}"
  by (simp_all add: dc_unfold)

lemma dc_distances [simp]:
  "getDistanceTo (pointHeap depotCustomerProblem) DepotRef (CustRef 0) = Fin 0"
  "getDistanceTo (pointHeap depotCustomerProblem) DepotRef (CustRef (Suc 0)) = Fin 1"
  "getDistanceTo (pointHeap depotCustomerProblem) (CustRef 0) DepotRef = Fin 0"
  "getDistanceTo (pointHeap depotCustomerProblem) (CustRef (Suc 0)) DepotRef = Fin 1"
  "getDistanceTo (pointHeap depotCustomerProblem) (CustRef 0) (CustRef (Suc 0)) = Fin 1"
  "getDistanceTo (pointHeap depotCustomerProblem) (CustRef (Suc 0)) (CustRef 0) = Fin 1"
  by (simp_all add: dc_unfold getDistanceTo_def)

lemma dc_points [simp]:
  "point_x (pointHeap depotCustomerProblem DepotRef) = Fin 0"
  "point_x (pointHeap depotCustomerProblem (CustRef 0)) = Fin 0"
  "point_x (pointHeap depotCustomerProblem (CustRef (Suc 0))) = Fin 0"
  "point_y (pointHeap depotCustomerProblem DepotRef) = Fin 0"
  "point_y (pointHeap depotCustomerProblem (CustRef 0)) = Fin 0"
  "point_y (pointHeap depotCustomerProblem (CustRef (Suc 0))) = Fin 1"
  "demand (pointHeap depotCustomerProblem (CustRef 0)) = Fin 1"
  "demand (pointHeap depotCustomerProblem (CustRef (Suc 0))) = Fin 1"
  by (simp_all add: dc_unfold)

lemma dc_created:
  "createRoutes depotCustomerProblem =
     depotCustomerProblem\<lparr>solutions := [0, 1], routeHeap := depotCustomerRoutes, routeIdCounter := 2\<rparr>"
  by (simp add: createRoutes_def createRoute_def newRoute_def depotCustomerRoutes_def)

lemma dc_angle:
  "angle (pointHeap depotCustomerProblem (CustRef 0)) (pointHeap depotCustomerProblem DepotRef)
     (pointHeap depotCustomerProblem (CustRef 1)) = NaN"
  by (simp add: angle_def jsub_def jpow2_def)

lemma dc_scored:
  "savings_list (findAllRouteSavingsPairs (createRoutes depotCustomerProblem) unitWeights)
     = [\<lparr>savings = NaN, routeA = 1, routeB = 0\<rparr>, \<lparr>savings = NaN, routeA = 0, routeB = 1\<rparr>]"
  unfolding dc_created
  by (simp add: unitWeights_def depotCustomerRoutes_def savings_eval)

lemma dc_feasible: "verifyRouteJoin (createRoutes depotCustomerProblem) 1 0"
  unfolding dc_created
  by (simp add: depotCustomerRoutes_def verifyRouteJoin_def joinDistance_def totalDistance_def
      distanceStep_def getStart_def getEnd_def jsub_def Let_def)

section \<open>Routes: the 2-opt search\<close>

lemma twoOptSwap_points:
  "points (twoOptSwap i k r) =
     take (i + 1) (points r) @ rev (take (k - i) (drop (i + 1) (points r)))
       @ drop (k + 1) (points r)"
  by (simp add: twoOptSwap_def slice_def)

lemma twoOptSwap_mset:
  assumes "i \<le> k"
  shows "mset (points (twoOptSwap i k r)) = mset (points r)"
proof -
  let ?ps = "points r"
  have "take (k - i) (drop (i + 1) ?ps) @ drop (k + 1) ?ps = drop (i + 1) ?ps"
  proof -
    have "drop (k + 1) ?ps = drop (k - i) (drop (i + 1) ?ps)"
      using assms by simp
    then show ?thesis by (simp only: append_take_drop_id)
  qed
  then have "mset (take (k - i) (drop (i + 1) ?ps)) + mset (drop (k + 1) ?ps)
      = mset (drop (i + 1) ?ps)"
    by (metis mset_append)
  moreover have "mset (take (i + 1) ?ps) + mset (drop (i + 1) ?ps) = mset ?ps"
    by (metis mset_append append_take_drop_id)
  ultimately show ?thesis
    by (simp add: twoOptSwap_points add.assoc)
qed

lemma twoOptSwap_first: "points (twoOptSwap i k r) ! 0 = points r ! 0"
  by (cases "points r") (simp_all add: twoOptSwap_points)

lemma twoOptSwap_fields:
  "depot (twoOptSwap i k r) = depot r" "route_id (twoOptSwap i k r) = route_id r"
  by (simp_all add: twoOptSwap_def)

lemma twoOptInner_mono: "twoOptInner ph ps i j = (b, j') \<Longrightarrow> j \<le> j'"
proof (induction ph ps i j rule: twoOptInner.induct)
  case (1 ph ps i j)
  show ?case
  proof (cases "j + 1 < length ps")
    case False
    with "1.prems" show ?thesis by (simp add: twoOptInner.simps)
  next
    case True
    with "1.prems" "1.IH" show ?thesis
      by (subst (asm) twoOptInner.simps) (fastforce split: if_splits)
  qed
qed

text \<open>\<open>twoOpt\<close> calls \<open>twoOptSwap\<close> with \<open>i < k\<close> only.\<close>

lemma twoOptOuter_less: "twoOptOuter ph ps i0 = Some (i, j) \<Longrightarrow> i < j"
proof (induction ph ps i0 rule: twoOptOuter.induct)
  case (1 ph ps i0)
  show ?case
  proof (cases "i0 + 2 < length ps")
    case False
    with "1.prems" show ?thesis by (simp add: twoOptOuter.simps)
  next
    case True
    obtain b j' where inner: "twoOptInner ph ps i0 (i0 + 2) = (b, j')"
      by (cases "twoOptInner ph ps i0 (i0 + 2)") auto
    then have le: "i0 + 2 \<le> j'" by (rule twoOptInner_mono)
    show ?thesis
    proof (cases "b \<or> improvesWrap ph ps i0 j'")
      case True
      with \<open>i0 + 2 < length ps\<close> inner "1.prems" have "i = i0 \<and> j = j'"
        by (subst (asm) twoOptOuter.simps) (auto split: if_splits bool.splits)
      with le show ?thesis by simp
    next
      case False
      with \<open>i0 + 2 < length ps\<close> inner "1.prems"
      have "twoOptOuter ph ps (i0 + 1) = Some (i, j)"
        by (subst (asm) twoOptOuter.simps) (auto split: if_splits bool.splits)
      with "1.IH" \<open>i0 + 2 < length ps\<close> inner False show ?thesis by auto
    qed
  qed
qed

lemma twoOpt_cases:
  "snd (twoOpt ph r) = r \<or> (\<exists>i k. i \<le> k \<and> snd (twoOpt ph r) = twoOptSwap i k r)"
proof (cases "twoOptOuter ph (points r) 0")
  case None
  then show ?thesis by (simp add: twoOpt_def)
next
  case (Some ij)
  obtain i j where "ij = (i, j)" by (cases ij)
  with Some have "i < j" using twoOptOuter_less by blast
  moreover from Some \<open>ij = (i, j)\<close> have "snd (twoOpt ph r) = twoOptSwap i j r"
    by (simp add: twoOpt_def Let_def)
  ultimately have "i \<le> j \<and> snd (twoOpt ph r) = twoOptSwap i j r" by simp
  then show ?thesis by blast
qed

lemma twoOpt_preserves:
  "mset (points (snd (twoOpt ph r))) = mset (points r)"
  "points (snd (twoOpt ph r)) ! 0 = points r ! 0"
  "depot (snd (twoOpt ph r)) = depot r"
  "route_id (snd (twoOpt ph r)) = route_id r"
  using twoOpt_cases[of ph r]
  by (auto simp: twoOptSwap_mset twoOptSwap_first twoOptSwap_fields)

lemma optimiseLoop_preserves:
  "mset (points (optimiseLoop ph n b r)) = mset (points r) \<and>
   points (optimiseLoop ph n b r) ! 0 = points r ! 0 \<and>
   depot (optimiseLoop ph n b r) = depot r \<and>
   route_id (optimiseLoop ph n b r) = route_id r"
proof (induction n arbitrary: b r)
  case 0
  show ?case by simp
next
  case (Suc n)
  obtain d r' where t: "twoOpt ph r = (d, r')" by (cases "twoOpt ph r")
  then have r': "r' = snd (twoOpt ph r)" by simp
  show ?case
    using Suc.IH[of d r'] twoOpt_preserves[of ph r] t
    by (simp add: r'[symmetric])
qed

text \<open>The sum of the demands as real numbers does not depend on the order of the points.\<close>

lemma exactDemand_mset:
  assumes "mset (points r') = mset (points r)" "depot r' = depot r"
  shows "exactDemand ph r' = exactDemand ph r"
proof -
  let ?f = "\<lambda>point sum. jadd sum (if point = depot r then Fin 0 else demand (ph point))"
  have comm: "?f p \<circ> ?f q = ?f q \<circ> ?f p" for p q
    by (rule ext)
      (simp add: jadd_assoc jadd_commute[of "if p = depot r then Fin 0 else demand (ph p)"])
  have "fold ?f (points r') = fold ?f (points r)"
    by (rule fold_multiset_equiv) (use comm assms in auto)
  then show ?thesis
    by (simp add: exactDemand_def foldl_conv_fold assms)
qed

text \<open>Natural numbers with a sum below \<open>2^53\<close> are added without rounding, in any order.\<close>

lemma safeNatural_nat:
  assumes "safeNatural v"
  shows "\<exists>n. v = Fin (real n) \<and> n < 2 ^ 53"
proof (cases v)
  case (Fin a)
  with assms have a: "0 \<le> a" "of_int \<lfloor>a\<rfloor> = a" "a < 2 ^ 53" by simp_all
  have r: "real (nat \<lfloor>a\<rfloor>) = a"
    using a(1,2) by simp
  with a(3) have "real (nat \<lfloor>a\<rfloor>) < real (2 ^ 53)" by simp
  then have "nat \<lfloor>a\<rfloor> < 2 ^ 53"
    by (simp only: of_nat_less_iff)
  with r Fin show ?thesis
    by (intro exI[of _ "nat \<lfloor>a\<rfloor>"]) simp
qed (use assms in simp_all)

lemma foldl_jadd_natural:
  assumes "\<forall>v \<in> set vs. safeNatural v"
  shows "\<exists>m. foldl jadd (Fin (real a)) vs = Fin (real (a + m))"
  using assms
proof (induction vs arbitrary: a)
  case Nil
  have "foldl jadd (Fin (real a)) [] = Fin (real (a + 0))" by simp
  then show ?case by blast
next
  case (Cons v vs)
  from Cons.prems obtain n where v: "v = Fin (real n)"
    using safeNatural_nat[of v] by auto
  from Cons.prems have "\<forall>u \<in> set vs. safeNatural u" by simp
  from Cons.IH[OF this, of "a + n"] obtain m
    where "foldl jadd (Fin (real (a + n))) vs = Fin (real (a + n + m))" by blast
  then have "foldl jadd (Fin (real a)) (v # vs) = Fin (real (a + (n + m)))"
    by (simp add: v add.assoc)
  then show ?case by blast
qed

lemma foldl_dadd_natural:
  assumes "\<forall>v \<in> set vs. safeNatural v" "safeNatural (foldl jadd (Fin (real a)) vs)"
  shows "foldl dadd (Fin (real a)) vs = foldl jadd (Fin (real a)) vs"
  using assms
proof (induction vs arbitrary: a)
  case Nil
  then show ?case by simp
next
  case (Cons v vs)
  from Cons.prems(1) obtain n where v: "v = Fin (real n)"
    using safeNatural_nat[of v] by auto
  from Cons.prems(1) have rest: "\<forall>u \<in> set vs. safeNatural u" by simp
  have step: "jadd (Fin (real a)) v = Fin (real (a + n))"
    by (simp add: v)
  from foldl_jadd_natural[OF rest, of "a + n"] obtain m
    where m: "foldl jadd (Fin (real (a + n))) vs = Fin (real (a + n + m))" by blast
  from Cons.prems(2) have safe: "safeNatural (foldl jadd (Fin (real (a + n))) vs)"
    by (simp only: foldl_Cons step)
  then have "real (a + n + m) < real (2 ^ 53)"
    by (simp only: m safeNatural.simps of_nat_numeral of_nat_power)
  then have "a + n + m < 2 ^ 53"
    by (simp only: of_nat_less_iff)
  then have "a + n < 2 ^ 53" by simp
  then have "dadd (Fin (real a)) v = Fin (real (a + n))"
    using toNumber_nat[of "a + n"] by (simp add: v dadd_Fin)
  then have "foldl dadd (Fin (real a)) (v # vs) = foldl dadd (Fin (real (a + n))) vs"
    by simp
  also have "\<dots> = foldl jadd (Fin (real (a + n))) vs"
    using rest safe by (rule Cons.IH)
  also have "\<dots> = foldl jadd (Fin (real a)) (v # vs)"
    by (simp only: foldl_Cons step)
  finally show ?case .
qed

lemma totalDemand_map:
  "totalDemand ph r
     = foldl dadd (Fin 0) (map (\<lambda>q. if q = depot r then Fin 0 else demand (ph q)) (points r))"
  by (simp add: totalDemand_def foldl_map)

lemma totalDemand_natural:
  assumes "naturalDemands ph r"
  shows "totalDemand ph r = exactDemand ph r"
proof -
  let ?f = "\<lambda>q. if q = depot r then Fin 0 else demand (ph q)"
  have e: "exactDemand ph r = foldl jadd (Fin (real 0)) (map ?f (points r))"
    by (simp add: exactDemand_def foldl_map)
  have t: "totalDemand ph r = foldl dadd (Fin (real 0)) (map ?f (points r))"
    by (simp add: totalDemand_def foldl_map)
  have "\<forall>v \<in> set (map ?f (points r)). safeNatural v"
    using assms by (auto simp add: naturalDemands_def)
  moreover have "safeNatural (foldl jadd (Fin (real 0)) (map ?f (points r)))"
    using assms by (simp only: naturalDemands_def flip: e)
  ultimately show ?thesis
    unfolding e t by (rule foldl_dadd_natural)
qed

lemma naturalDemands_mset:
  assumes "mset (points r') = mset (points r)" "depot r' = depot r" "naturalDemands ph r"
  shows "naturalDemands ph r'"
proof -
  have "set (points r') = set (points r)"
    using assms(1) by (rule mset_eq_setD)
  with assms(2,3) exactDemand_mset[OF assms(1,2), of ph] show ?thesis
    by (simp add: naturalDemands_def)
qed

text \<open>The route of the fractional example, its optimisation and the two sums.\<close>

lemma fractionHeap_distance [simp]:
  "getDistanceTo fractionHeap p q = Fin \<bar>linePosition p - linePosition q\<bar>"
  by (simp add: getDistanceTo_def fractionHeap_def lineHeap_def)

lemma fractionHeap_demand:
  "demand (fractionHeap (CustRef 0)) = Fin oneTenth"
  "demand (fractionHeap (CustRef (Suc 0))) = Fin oneFifth"
  "demand (fractionHeap (CustRef 2)) = Fin threeTenths"
  "demand (fractionHeap (CustRef 3)) = Fin 0"
  by (simp_all add: fractionHeap_def)

lemma reversed_optimise:
  "optimise fractionHeap 100 reversedRoute
     = reversedRoute\<lparr>points := [DepotRef, CustRef 0, CustRef 1, CustRef 2, CustRef 3]\<rparr>"
  by (simp add: optimise_def numeral_eq_Suc reversedRoute_def twoOpt_eval)

lemma fraction_sums:
  "dadd (Fin 0) (Fin 0) = Fin 0"
  "dadd (Fin 0) (Fin threeTenths) = Fin threeTenths"
  "dadd (Fin threeTenths) (Fin oneFifth) = Fin (1 / 2)"
  "dadd (Fin (1 / 2)) (Fin oneTenth) = Fin (5404319552844595 / 2 ^ 53)"
  "dadd (Fin (5404319552844595 / 2 ^ 53)) (Fin 0) = Fin (5404319552844595 / 2 ^ 53)"
  "dadd (Fin 0) (Fin oneTenth) = Fin oneTenth"
  "dadd (Fin oneTenth) (Fin oneFifth) = Fin (5404319552844596 / 2 ^ 54)"
  "dadd (Fin (5404319552844596 / 2 ^ 54)) (Fin threeTenths) = Fin (5404319552844596 / 2 ^ 53)"
  "dadd (Fin (5404319552844596 / 2 ^ 53)) (Fin 0) = Fin (5404319552844596 / 2 ^ 53)"
proof -
  show "dadd (Fin 0) (Fin 0) = Fin 0"
    by (simp add: dadd_Fin)
  show "dadd (Fin 0) (Fin threeTenths) = Fin threeTenths"
    by (rule dadd_round[where k = "- 2" and x = "5404319552844595 / 2 ^ 54"
          and n = 5404319552844595])
      (simp_all add: threeTenths_def roundHalfEven_def Let_def)
  show "dadd (Fin threeTenths) (Fin oneFifth) = Fin (1 / 2)"
    by (rule dadd_round[where k = "- 1" and x = "1 / 2" and n = "2 ^ 52"])
      (simp_all add: threeTenths_def oneFifth_def roundHalfEven_def Let_def)
  show "dadd (Fin (1 / 2)) (Fin oneTenth) = Fin (5404319552844595 / 2 ^ 53)"
    by (rule dadd_round[where k = "- 1" and x = "21617278211378381 / 2 ^ 55"
          and n = 5404319552844595])
      (simp_all add: oneTenth_def roundHalfEven_def Let_def)
  show "dadd (Fin (5404319552844595 / 2 ^ 53)) (Fin 0) = Fin (5404319552844595 / 2 ^ 53)"
    by (rule dadd_round[where k = "- 1" and x = "5404319552844595 / 2 ^ 53"
          and n = 5404319552844595])
      (simp_all add: roundHalfEven_def Let_def)
  show "dadd (Fin 0) (Fin oneTenth) = Fin oneTenth"
    by (rule dadd_round[where k = "- 4" and x = "3602879701896397 / 2 ^ 55"
          and n = 7205759403792794])
      (simp_all add: oneTenth_def roundHalfEven_def Let_def)
  show "dadd (Fin oneTenth) (Fin oneFifth) = Fin (5404319552844596 / 2 ^ 54)"
    by (rule dadd_round[where k = "- 2" and x = "10808639105689191 / 2 ^ 55"
          and n = 5404319552844596])
      (simp_all add: oneTenth_def oneFifth_def roundHalfEven_def Let_def)
  show "dadd (Fin (5404319552844596 / 2 ^ 54)) (Fin threeTenths) = Fin (5404319552844596 / 2 ^ 53)"
    by (rule dadd_round[where k = "- 1" and x = "10808639105689191 / 2 ^ 54"
          and n = 5404319552844596])
      (simp_all add: threeTenths_def roundHalfEven_def Let_def)
  show "dadd (Fin (5404319552844596 / 2 ^ 53)) (Fin 0) = Fin (5404319552844596 / 2 ^ 53)"
    by (rule dadd_round[where k = "- 1" and x = "5404319552844596 / 2 ^ 53"
          and n = 5404319552844596])
      (simp_all add: roundHalfEven_def Let_def)
qed

lemma reversed_demand:
  "totalDemand fractionHeap reversedRoute = Fin (5404319552844595 / 2 ^ 53)"
proof -
  have "map (\<lambda>q. if q = depot reversedRoute then Fin 0 else demand (fractionHeap q))
          (points reversedRoute)
        = [Fin 0, Fin threeTenths, Fin oneFifth, Fin oneTenth, Fin 0]"
    by (simp add: reversedRoute_def fractionHeap_demand)
  then have "totalDemand fractionHeap reversedRoute
      = foldl dadd (Fin 0) [Fin 0, Fin threeTenths, Fin oneFifth, Fin oneTenth, Fin 0]"
    by (simp only: totalDemand_map)
  also have "\<dots> = Fin (5404319552844595 / 2 ^ 53)"
    by (simp only: foldl_Cons foldl_Nil fraction_sums)
  finally show ?thesis .
qed

lemma ordered_demand:
  "totalDemand fractionHeap (optimise fractionHeap 100 reversedRoute)
     = Fin (5404319552844596 / 2 ^ 53)"
proof -
  let ?r = "reversedRoute\<lparr>points := [DepotRef, CustRef 0, CustRef 1, CustRef 2, CustRef 3]\<rparr>"
  have "map (\<lambda>q. if q = depot ?r then Fin 0 else demand (fractionHeap q)) (points ?r)
        = [Fin 0, Fin oneTenth, Fin oneFifth, Fin threeTenths, Fin 0]"
    by (simp add: reversedRoute_def fractionHeap_demand)
  then have "totalDemand fractionHeap ?r
      = foldl dadd (Fin 0) [Fin 0, Fin oneTenth, Fin oneFifth, Fin threeTenths, Fin 0]"
    by (simp only: totalDemand_map)
  also have "\<dots> = Fin (5404319552844596 / 2 ^ 53)"
    by (simp only: foldl_Cons foldl_Nil fraction_sums)
  finally show ?thesis
    by (simp only: reversed_optimise)
qed

text \<open>
  C9.  \<open>optimise\<close>, each \<open>twoOpt\<close> pass and each \<open>twoOptSwap(i, k)\<close> with \<open>i \<le> k\<close> (the only
  calls \<open>twoOpt\<close> makes) keep the multiset of the route's points and the element at index 0,
  and leave the \<open>depot\<close> field alone: a route that starts at its depot still does.  Hence the
  sum of the demands as real numbers is the same after \<open>optimise\<close> as before.  \<open>totalDemand\<close>
  adds them in double precision in the order of the route: it is the same after \<open>optimise\<close>
  when the demands are natural numbers with a sum below \<open>2^53\<close>.
\<close>

theorem optimise_preserves_points:
  "mset (points (optimise ph maxIter r)) = mset (points r) \<and>
   points (optimise ph maxIter r) ! 0 = points r ! 0 \<and>
   depot (optimise ph maxIter r) = depot r \<and>
   (points r ! 0 = depot r \<longrightarrow> points (optimise ph maxIter r) ! 0 = depot (optimise ph maxIter r)) \<and>
   exactDemand ph (optimise ph maxIter r) = exactDemand ph r \<and>
   (naturalDemands ph r \<longrightarrow> totalDemand ph (optimise ph maxIter r) = totalDemand ph r) \<and>
   mset (points (snd (twoOpt ph r))) = mset (points r) \<and>
   points (snd (twoOpt ph r)) ! 0 = points r ! 0 \<and>
   (\<forall>i k. i \<le> k \<longrightarrow>
      mset (points (twoOptSwap i k r)) = mset (points r) \<and>
      points (twoOptSwap i k r) ! 0 = points r ! 0)"
proof -
  have opt: "mset (points (optimise ph maxIter r)) = mset (points r)"
      "points (optimise ph maxIter r) ! 0 = points r ! 0"
      "depot (optimise ph maxIter r) = depot r"
    using optimiseLoop_preserves[of ph maxIter "Fin 0" r] by (simp_all add: optimise_def)
  have exact: "exactDemand ph (optimise ph maxIter r) = exactDemand ph r"
    using opt by (intro exactDemand_mset)
  have "totalDemand ph (optimise ph maxIter r) = totalDemand ph r" if n: "naturalDemands ph r"
  proof -
    have "naturalDemands ph (optimise ph maxIter r)"
      using opt(1,3) n by (rule naturalDemands_mset)
    then have "totalDemand ph (optimise ph maxIter r) = exactDemand ph (optimise ph maxIter r)"
      by (rule totalDemand_natural)
    also note exact
    also have "exactDemand ph r = totalDemand ph r"
      using n by (rule totalDemand_natural[symmetric])
    finally show ?thesis .
  qed
  with opt exact show ?thesis
    by (simp add: twoOpt_preserves twoOptSwap_mset twoOptSwap_first)
qed

theorem optimise_preserves_points_witness:
  "points crossedRoute ! 0 = depot crossedRoute \<and>
   points (optimise lineHeap 100 crossedRoute) ! 0 = DepotRef \<and>
   naturalDemands lineHeap crossedRoute \<and>
   totalDemand lineHeap (optimise lineHeap 100 crossedRoute) = Fin 15 \<and>
   (0::nat) \<le> 2 \<and>
   mset (points (twoOptSwap 0 2 crossedRoute)) = mset [DepotRef, CustRef 1, CustRef 0, CustRef 2]"
proof -
  note inst = optimise_preserves_points[of lineHeap 100 crossedRoute]
  have start: "points crossedRoute ! 0 = depot crossedRoute" "depot crossedRoute = DepotRef"
    by (simp_all add: crossedRoute_def)
  have dem: "totalDemand lineHeap crossedRoute = Fin 15"
    by (simp add: crossedRoute_def totalDemand_def dadd_Fin)
  have nat: "naturalDemands lineHeap crossedRoute"
    by (simp add: naturalDemands_def exactDemand_def crossedRoute_def)
  have pts: "points crossedRoute = [DepotRef, CustRef 1, CustRef 0, CustRef 2]"
    by (simp add: crossedRoute_def)
  from inst have "(0::nat) \<le> 2 \<longrightarrow>
      mset (points (twoOptSwap 0 2 crossedRoute)) = mset (points crossedRoute)"
    by blast
  with inst start dem nat show ?thesis
    by (simp only: pts) simp
qed

text \<open>
  C9, as the specification has it, fails for \<open>totalDemand\<close>: on the route that visits the
  customers with demands 0.3, 0.2, 0.1 and 0 in this order, \<open>optimise\<close> reverses the first
  three, and the sum changes from \<open>0.6\<close> to \<open>0.6000000000000001\<close>, since \<open>(0.3 + 0.2) + 0.1\<close>
  and \<open>(0.1 + 0.2) + 0.3\<close> round differently.
\<close>

theorem optimise_demand_counterexample:
  "points (optimise fractionHeap 100 reversedRoute)
     = [DepotRef, CustRef 0, CustRef 1, CustRef 2, CustRef 3] \<and>
   totalDemand fractionHeap reversedRoute = Fin (5404319552844595 / 2 ^ 53) \<and>
   totalDemand fractionHeap (optimise fractionHeap 100 reversedRoute)
     = Fin (5404319552844596 / 2 ^ 53) \<and>
   totalDemand fractionHeap (optimise fractionHeap 100 reversedRoute)
     \<noteq> totalDemand fractionHeap reversedRoute"
proof -
  have "points (optimise fractionHeap 100 reversedRoute)
      = [DepotRef, CustRef 0, CustRef 1, CustRef 2, CustRef 3]"
    by (simp add: reversed_optimise)
  then show ?thesis
    by (simp add: reversed_demand ordered_demand)
qed

lemma optimisePasses_bound: "length (optimisePasses ph n b r) \<le> n"
  by (induction n arbitrary: b r) (auto split: prod.splits)

lemma optimisePasses_stop:
  "k < length (optimisePasses ph n b r) \<Longrightarrow>
   jeq (optimisePasses ph n b r ! k) (previousDistance b (optimisePasses ph n b r) k) \<Longrightarrow>
   Suc k = length (optimisePasses ph n b r)"
proof (induction n arbitrary: b r k)
  case 0
  then show ?case by simp
next
  case (Suc n)
  obtain d r' where t: "twoOpt ph r = (d, r')" by (cases "twoOpt ph r")
  show ?case
  proof (cases "jeq d b")
    case True
    with t Suc.prems show ?thesis by simp
  next
    case False
    then have ds: "optimisePasses ph (Suc n) b r = d # optimisePasses ph n d r'"
      using t by simp
    show ?thesis
    proof (cases k)
      case 0
      with Suc.prems ds False show ?thesis by (simp add: previousDistance_def)
    next
      case (Suc k')
      with Suc.prems ds have "k' < length (optimisePasses ph n d r')"
        and "jeq (optimisePasses ph n d r' ! k')
               (previousDistance d (optimisePasses ph n d r') k')"
        by (auto simp: previousDistance_def nth_Cons')
      then have "Suc k' = length (optimisePasses ph n d r')" by (rule Suc.IH)
      with ds Suc show ?thesis by simp
    qed
  qed
qed

lemma optimisePasses_early:
  "length (optimisePasses ph n b r) < n \<Longrightarrow>
   optimisePasses ph n b r \<noteq> [] \<and>
   jeq (last (optimisePasses ph n b r))
       (previousDistance b (optimisePasses ph n b r) (length (optimisePasses ph n b r) - 1))"
proof (induction n arbitrary: b r)
  case 0
  then show ?case by simp
next
  case (Suc n)
  obtain d r' where t: "twoOpt ph r = (d, r')" by (cases "twoOpt ph r")
  show ?case
  proof (cases "jeq d b")
    case True
    with t show ?thesis by (simp add: previousDistance_def)
  next
    case False
    then have ds: "optimisePasses ph (Suc n) b r = d # optimisePasses ph n d r'"
      using t by simp
    with Suc.prems have "length (optimisePasses ph n d r') < n" by simp
    from Suc.IH[OF this] ds show ?thesis
      by (cases "optimisePasses ph n d r'") (auto simp: previousDistance_def)
  qed
qed

lemma optimisePasses_run:
  "optimiseLoop ph n b r = ((\<lambda>r. snd (twoOpt ph r)) ^^ length (optimisePasses ph n b r)) r \<and>
   (\<forall>k < length (optimisePasses ph n b r).
      optimisePasses ph n b r ! k = fst (twoOpt ph (((\<lambda>r. snd (twoOpt ph r)) ^^ k) r)))"
proof (induction n arbitrary: b r)
  case 0
  show ?case by simp
next
  case (Suc n)
  let ?f = "\<lambda>r. snd (twoOpt ph r)"
  obtain d r' where t: "twoOpt ph r = (d, r')" by (cases "twoOpt ph r")
  show ?case
  proof (cases "jeq d b")
    case True
    with t show ?thesis by simp
  next
    case False
    with t have loop: "optimiseLoop ph (Suc n) b r = optimiseLoop ph n d r'"
      and ds: "optimisePasses ph (Suc n) b r = d # optimisePasses ph n d r'"
      by simp_all
    from t have r': "r' = ?f r" by simp
    have sw: "snd (twoOpt ph ((?f ^^ m) u)) = (?f ^^ m) (snd (twoOpt ph u))" for m u
      using funpow_swap1[of ?f m u] by simp
    from Suc.IH[of d r']
    have ih1: "optimiseLoop ph n d r' = (?f ^^ length (optimisePasses ph n d r')) r'"
      and ih2: "\<And>k. k < length (optimisePasses ph n d r') \<Longrightarrow>
          optimisePasses ph n d r' ! k = fst (twoOpt ph ((?f ^^ k) r'))"
      by simp_all
    have "optimiseLoop ph (Suc n) b r = (?f ^^ length (optimisePasses ph (Suc n) b r)) r"
      unfolding loop ds ih1 by (simp add: r' sw)
    moreover have "optimisePasses ph (Suc n) b r ! k = fst (twoOpt ph ((?f ^^ k) r))"
      if "k < length (optimisePasses ph (Suc n) b r)" for k
    proof (cases k)
      case 0
      with t ds show ?thesis by simp
    next
      case (Suc k')
      with that ds have "k' < length (optimisePasses ph n d r')" by simp
      from ih2[OF this] Suc ds show ?thesis
        by (simp add: r' sw)
    qed
    ultimately show ?thesis by blast
  qed
qed

text \<open>
  C6.  \<open>optimise\<close> terminates for every route and every distance table (its loops are total
  functions).  It makes at most \<open>maxIter\<close> passes of \<open>twoOpt\<close>: its result is the route after
  that many passes, and \<open>optimisePasses\<close> lists the distances they return.  A pass that returns
  the distance the pass before returned (for the first pass, the initial \<open>bestDistance = 0\<close>) is
  the last one; and when fewer than \<open>maxIter\<close> passes are made, the last one returned such a
  distance.
\<close>

theorem optimise_terminates:
  "length (optimisePasses ph maxIter (Fin 0) r) \<le> maxIter \<and>
   optimise ph maxIter r
     = ((\<lambda>r. snd (twoOpt ph r)) ^^ length (optimisePasses ph maxIter (Fin 0) r)) r \<and>
   (\<forall>k < length (optimisePasses ph maxIter (Fin 0) r).
      optimisePasses ph maxIter (Fin 0) r ! k
        = fst (twoOpt ph (((\<lambda>r. snd (twoOpt ph r)) ^^ k) r))) \<and>
   (\<forall>k < length (optimisePasses ph maxIter (Fin 0) r).
      jeq (optimisePasses ph maxIter (Fin 0) r ! k)
          (previousDistance (Fin 0) (optimisePasses ph maxIter (Fin 0) r) k)
      \<longrightarrow> Suc k = length (optimisePasses ph maxIter (Fin 0) r)) \<and>
   (length (optimisePasses ph maxIter (Fin 0) r) < maxIter \<longrightarrow>
      optimisePasses ph maxIter (Fin 0) r \<noteq> [] \<and>
      jeq (last (optimisePasses ph maxIter (Fin 0) r))
          (previousDistance (Fin 0) (optimisePasses ph maxIter (Fin 0) r)
             (length (optimisePasses ph maxIter (Fin 0) r) - 1)))"
  using optimisePasses_bound[of ph maxIter "Fin 0" r]
    optimisePasses_run[of ph maxIter "Fin 0" r]
    optimisePasses_stop[of _ ph maxIter "Fin 0" r]
    optimisePasses_early[of ph maxIter "Fin 0" r]
  unfolding optimise_def by blast


theorem optimise_terminates_witness:
  "(1::nat) < length (optimisePasses lineHeap 100 (Fin 0) crossedRoute) \<and>
   jeq (optimisePasses lineHeap 100 (Fin 0) crossedRoute ! 1)
       (previousDistance (Fin 0) (optimisePasses lineHeap 100 (Fin 0) crossedRoute) 1) \<and>
   length (optimisePasses lineHeap 100 (Fin 0) crossedRoute) = 2 \<and>
   length (optimisePasses lineHeap 100 (Fin 0) crossedRoute) < 100"
  using optimise_terminates[of lineHeap 100 crossedRoute]
  by (simp add: crossed_passes previousDistance_def)

section \<open>Joining two routes\<close>

text \<open>
  C10.  \<open>joinRoute\<close> changes the receiver only: every other route object, the absorbed one
  among them, keeps its point sequence, identifier and depot, and so its \<open>getStart()\<close> and
  \<open>getEnd()\<close>.
\<close>

theorem joinRoute_frame:
  assumes "b \<noteq> a"
  shows "joinRoute rh a b b = rh b \<and>
         getStart (joinRoute rh a b b) = getStart (rh b) \<and>
         getEnd (joinRoute rh a b b) = getEnd (rh b) \<and>
         (\<forall>c. c \<noteq> a \<longrightarrow> joinRoute rh a b c = rh c) \<and>
         depot (joinRoute rh a b a) = depot (rh a) \<and>
         route_id (joinRoute rh a b a) = route_id (rh a)"
  using assms by (simp add: joinRoute_def)

theorem joinRoute_frame_witness:
  "(1::nat) \<noteq> 0 \<and>
   points (joinRoute singletonHeap 0 1 0) = [DepotRef, CustRef 0, CustRef 1] \<and>
   joinRoute singletonHeap 0 1 1 = singletonHeap 1 \<and>
   getStart (joinRoute singletonHeap 0 1 1) = CustRef 1 \<and>
   getEnd (joinRoute singletonHeap 0 1 1) = CustRef 1"
  using joinRoute_frame[of 1 0 singletonHeap]
  by (simp add: joinRoute_def singletonHeap_def newRoute_def getStart_def getEnd_def)

section \<open>Routes: what a 2-opt pass does\<close>

lemma inner_char:
  "twoOptInner ph ps i j0 = (b, j) \<Longrightarrow> i + 2 \<le> j0 \<Longrightarrow> j0 < length ps \<Longrightarrow>
     j0 \<le> j \<and> j < length ps \<and>
     (\<forall>j'. j0 \<le> j' \<and> j' < j \<longrightarrow> \<not> improvesInner ph ps i j') \<and>
     (b \<longrightarrow> j + 1 < length ps \<and> improvesInner ph ps i j) \<and> (\<not> b \<longrightarrow> j + 1 = length ps)"
proof (induction ph ps i j0 rule: twoOptInner.induct)
  case (1 ph ps i j0)
  show ?case
  proof (cases "j0 + 1 < length ps")
    case False
    with "1.prems" have "\<not> b" "j = j0" by (simp_all add: twoOptInner.simps)
    with False "1.prems" show ?thesis by auto
  next
    case True
    show ?thesis
    proof (cases "improvesInner ph ps i j0")
      case yes: True
      with True "1.prems" have "b" "j = j0" by (simp_all add: twoOptInner.simps)
      with yes True "1.prems" show ?thesis by auto
    next
      case no: False
      with True "1.prems" have rec: "twoOptInner ph ps i (j0 + 1) = (b, j)"
        by (subst (asm) twoOptInner.simps) simp
      from "1.prems" have ne: "j0 \<noteq> i + 1" by simp
      from "1.IH"(2)[OF True ne no rec] "1.prems" True
      have ih: "j0 + 1 \<le> j \<and> j < length ps \<and>
         (\<forall>j'. j0 + 1 \<le> j' \<and> j' < j \<longrightarrow> \<not> improvesInner ph ps i j') \<and>
         (b \<longrightarrow> j + 1 < length ps \<and> improvesInner ph ps i j) \<and> (\<not> b \<longrightarrow> j + 1 = length ps)"
        by simp
      have "\<not> improvesInner ph ps i j'" if "j0 \<le> j'" "j' < j" for j'
      proof (cases "j' = j0")
        case True
        with no show ?thesis by simp
      next
        case False
        with that ih show ?thesis by simp
      qed
      with ih show ?thesis by auto
    qed
  qed
qed

lemma outer_char:
  "(case twoOptOuter ph ps i0 of
      None \<Rightarrow> (\<forall>i j. i0 \<le> i \<and> i + 2 \<le> j \<and> j < length ps \<longrightarrow> \<not> improves ph ps i j)
    | Some (i, j) \<Rightarrow>
        i0 \<le> i \<and> i + 2 \<le> j \<and> j < length ps \<and> improves ph ps i j \<and>
        (\<forall>i' j'. i0 \<le> i' \<and> i' + 2 \<le> j' \<and> j' < length ps \<and> (i' < i \<or> (i' = i \<and> j' < j))
            \<longrightarrow> \<not> improves ph ps i' j'))"
proof (induction ph ps i0 rule: twoOptOuter.induct)
  case (1 ph ps i0)
  show ?case
  proof (cases "i0 + 2 < length ps")
    case False
    then have "twoOptOuter ph ps i0 = None" by (simp add: twoOptOuter.simps)
    with False show ?thesis by auto
  next
    case True
    obtain b j where inner: "twoOptInner ph ps i0 (i0 + 2) = (b, j)"
      by (cases "twoOptInner ph ps i0 (i0 + 2)") auto
    from inner_char[OF inner] True
    have ic: "i0 + 2 \<le> j" "j < length ps"
      "\<forall>j'. i0 + 2 \<le> j' \<and> j' < j \<longrightarrow> \<not> improvesInner ph ps i0 j'"
      "b \<Longrightarrow> j + 1 < length ps \<and> improvesInner ph ps i0 j"
      "\<not> b \<Longrightarrow> j + 1 = length ps"
      by simp_all
    have before: "\<not> improves ph ps i0 j'" if "i0 + 2 \<le> j'" "j' < j" for j'
      using that ic by (simp add: improves_def)
    show ?thesis
    proof (cases "b \<or> improvesWrap ph ps i0 j")
      case found: True
      then have res: "twoOptOuter ph ps i0 = Some (i0, j)"
        using True inner by (subst twoOptOuter.simps) (auto split: bool.splits)
      have "improves ph ps i0 j"
        using found ic(4,5) by (cases b) (auto simp: improves_def)
      with res ic before show ?thesis by auto
    next
      case nf: False
      then have res: "twoOptOuter ph ps i0 = twoOptOuter ph ps (i0 + 1)"
        using True inner by (subst twoOptOuter.simps) (auto split: bool.splits)
      from nf ic have last: "j + 1 = length ps" "\<not> improves ph ps i0 j"
        by (auto simp: improves_def)
      have row: "\<not> improves ph ps i0 j'" if "i0 + 2 \<le> j'" "j' < length ps" for j'
      proof (cases "j' = j")
        case True
        with last show ?thesis by simp
      next
        case False
        with that last have "j' < j" by simp
        with that show ?thesis by (simp add: before)
      qed
      have ih: "case twoOptOuter ph ps (i0 + 1) of
          None \<Rightarrow> (\<forall>i j. i0 + 1 \<le> i \<and> i + 2 \<le> j \<and> j < length ps \<longrightarrow> \<not> improves ph ps i j)
        | Some (i, j) \<Rightarrow>
            i0 + 1 \<le> i \<and> i + 2 \<le> j \<and> j < length ps \<and> improves ph ps i j \<and>
            (\<forall>i' j'. i0 + 1 \<le> i' \<and> i' + 2 \<le> j' \<and> j' < length ps \<and> (i' < i \<or> (i' = i \<and> j' < j))
                \<longrightarrow> \<not> improves ph ps i' j')"
        using "1.IH"[OF True inner[symmetric]] nf by (cases b) auto
      show ?thesis
      proof (cases "twoOptOuter ph ps (i0 + 1)")
        case None
        with ih have "\<not> improves ph ps i j" if "i0 \<le> i" "i + 2 \<le> j" "j < length ps" for i j
          using that row by (cases "i = i0") auto
        with None res show ?thesis by simp
      next
        case (Some ij)
        obtain i j where ij: "ij = (i, j)" by (cases ij)
        with Some ih have a: "i0 + 1 \<le> i" "i + 2 \<le> j" "j < length ps" "improves ph ps i j"
          and b: "\<And>i' j'. i0 + 1 \<le> i' \<Longrightarrow> i' + 2 \<le> j' \<Longrightarrow> j' < length ps \<Longrightarrow>
                  (i' < i \<or> (i' = i \<and> j' < j)) \<Longrightarrow> \<not> improves ph ps i' j'"
          by auto
        have "\<not> improves ph ps i' j'"
          if "i0 \<le> i'" "i' + 2 \<le> j'" "j' < length ps" "i' < i \<or> (i' = i \<and> j' < j)" for i' j'
          using that row b by (cases "i' = i0") auto
        with a Some ij res show ?thesis by auto
      qed
    qed
  qed
qed

lemma locallyOptimal_None:
  assumes "locallyOptimal ph ps"
  shows "twoOptOuter ph ps 0 = None"
proof (cases "twoOptOuter ph ps 0")
  case None
  then show ?thesis .
next
  case (Some ij)
  obtain i j where ij: "ij = (i, j)" by (cases ij)
  with Some outer_char[where ph = ph and ps = ps and ?i0.0 = 0] have "i + 2 \<le> j" "j < length ps" "improves ph ps i j"
    by auto
  moreover from this assms have "\<not> improves ph ps i j"
    by (auto simp: locallyOptimal_def)
  ultimately show ?thesis by simp
qed

lemma twoOpt_locallyOptimal:
  "locallyOptimal ph (points r) \<Longrightarrow> twoOpt ph r = (totalDistance ph r, r)"
  by (simp add: twoOpt_def locallyOptimal_None)

lemma optimiseLoop_locallyOptimal:
  "locallyOptimal ph (points r) \<Longrightarrow> optimiseLoop ph n b r = r"
proof (induction n arbitrary: b)
  case 0
  show ?case by simp
next
  case (Suc n)
  then show ?case by (simp add: twoOpt_locallyOptimal)
qed

lemma twoOpt_first_improving:
  "(locallyOptimal ph (points r) \<and> twoOpt ph r = (totalDistance ph r, r)) \<or>
   (\<exists>i j. firstImproving ph (points r) i j \<and>
      twoOpt ph r = (totalDistance ph (twoOptSwap i j r), twoOptSwap i j r))"
proof (cases "twoOptOuter ph (points r) 0")
  case None
  with outer_char[where ph = ph and ps = "points r" and ?i0.0 = 0] have "locallyOptimal ph (points r)"
    by (auto simp: locallyOptimal_def)
  then show ?thesis by (simp add: twoOpt_locallyOptimal)
next
  case (Some ij)
  obtain i j where ij: "ij = (i, j)" by (cases ij)
  with Some outer_char[where ph = ph and ps = "points r" and ?i0.0 = 0] have "firstImproving ph (points r) i j"
    by (auto simp: firstImproving_def)
  moreover from Some ij
  have "twoOpt ph r = (totalDistance ph (twoOptSwap i j r), twoOptSwap i j r)"
    by (simp add: twoOpt_def Let_def)
  ultimately show ?thesis by blast
qed

lemma orderedRoute_optimal: "locallyOptimal lineHeap (points orderedRoute)"
  by (simp add: locallyOptimal_def orderedRoute_def improves_def improvesInner_def
      improvesWrap_def jgt_def atLeast0LessThan lessThan_Suc)

lemma crossed_first: "firstImproving lineHeap (points crossedRoute) 0 2"
  by (simp add: firstImproving_def crossedRoute_def improves_def improvesInner_def
      improvesWrap_def jgt_def atLeast0LessThan lessThan_Suc)

text \<open>
  C7.  On a locally optimal route \<open>optimise\<close> changes nothing: the route object, its point
  order and its total distance stay as they are.  A \<open>twoOpt\<close> pass either finds no improving
  reversal and leaves the route alone, or performs the reversal of the first index pair, in
  the order of its scan, whose comparison holds strictly, and returns the new total distance
  at once.
\<close>

theorem optimise_locally_optimal:
  "(locallyOptimal ph (points r) \<longrightarrow>
      optimise ph maxIter r = r \<and>
      points (optimise ph maxIter r) = points r \<and>
      totalDistance ph (optimise ph maxIter r) = totalDistance ph r) \<and>
   ((locallyOptimal ph (points r) \<and> twoOpt ph r = (totalDistance ph r, r)) \<or>
    (\<exists>i j. firstImproving ph (points r) i j \<and>
       twoOpt ph r = (totalDistance ph (twoOptSwap i j r), twoOptSwap i j r)))"
  using twoOpt_first_improving[of ph r]
  by (simp add: optimise_def optimiseLoop_locallyOptimal)

theorem optimise_locally_optimal_witness:
  "locallyOptimal lineHeap (points orderedRoute) \<and>
   optimise lineHeap 100 orderedRoute = orderedRoute \<and>
   totalDistance lineHeap (optimise lineHeap 100 orderedRoute) = Fin 6 \<and>
   \<not> locallyOptimal lineHeap (points crossedRoute) \<and>
   firstImproving lineHeap (points crossedRoute) 0 2 \<and>
   twoOpt lineHeap crossedRoute =
     (totalDistance lineHeap (twoOptSwap 0 2 crossedRoute), twoOptSwap 0 2 crossedRoute)"
proof -
  have td: "totalDistance lineHeap orderedRoute = Fin 6"
    by (simp add: orderedRoute_def totalDistance_def distanceStep_def)
  have sw: "twoOptSwap 0 2 crossedRoute
      = crossedRoute\<lparr>points := [DepotRef, CustRef 0, CustRef 1, CustRef 2]\<rparr>"
    by (simp add: twoOptSwap_def slice_def crossedRoute_def)
  have td2: "totalDistance lineHeap (twoOptSwap 0 2 crossedRoute) = Fin 6"
    by (simp add: sw) (simp add: crossedRoute_def totalDistance_def distanceStep_def)
  have no: "\<not> locallyOptimal lineHeap (points crossedRoute)"
  proof
    assume "locallyOptimal lineHeap (points crossedRoute)"
    then have "points (snd (twoOpt lineHeap crossedRoute)) = points crossedRoute"
      by (simp add: twoOpt_locallyOptimal)
    then show False
      by (simp add: crossed_twoOpt) (simp add: crossedRoute_def)
  qed
  from optimise_locally_optimal[of lineHeap orderedRoute 100] orderedRoute_optimal td
    crossed_first no td2 sw crossed_twoOpt
  show ?thesis by simp
qed

section \<open>The angle\<close>










section \<open>The distance tables the constructor builds\<close>

lemma depotSymmetricD:
  "depotSymmetric ph \<Longrightarrow> distances (ph DepotRef) (CustRef k) = distances (ph (CustRef k)) DepotRef"
  unfolding depotSymmetric_def by (rule spec)

lemma depotSymmetricI:
  assumes "\<And>k. distances (ph DepotRef) (CustRef k) = distances (ph (CustRef k)) DepotRef"
  shows "depotSymmetric ph"
  unfolding depotSymmetric_def
proof
  fix q
  show "distances (ph DepotRef) q = distances (ph q) DepotRef"
    by (cases q) (simp_all add: assms)
qed

lemma pairStep_symmetric:
  assumes "depotSymmetric (fst st)"
  shows "depotSymmetric (fst (pairStep gd (CustRef i) st (CustRef k)))"
proof (rule depotSymmetricI)
  fix m
  show "distances (fst (pairStep gd (CustRef i) st (CustRef k)) DepotRef) (CustRef m) =
        distances (fst (pairStep gd (CustRef i) st (CustRef k)) (CustRef m)) DepotRef"
    using depotSymmetricD[OF assms, of m]
    by (simp add: pairStep_def setDistanceTo_def Let_def)
qed

lemma pairs_symmetric:
  "depotSymmetric (fst st) \<Longrightarrow>
   depotSymmetric (fst (foldl (pairStep gd (CustRef i)) st (map CustRef ks)))"
proof (induction ks arbitrary: st)
  case Nil
  then show ?case by simp
next
  case (Cons k ks)
  from Cons.prems have "depotSymmetric (fst (pairStep gd (CustRef i) st (CustRef k)))"
    by (rule pairStep_symmetric)
  then show ?case by (simp add: Cons.IH)
qed

lemma setDistance_depot_symmetric:
  assumes "depotSymmetric ph"
  shows "depotSymmetric (setDistanceTo (setDistanceTo ph (CustRef i) DepotRef d) DepotRef (CustRef i) d)"
proof (rule depotSymmetricI)
  fix m
  show "distances (setDistanceTo (setDistanceTo ph (CustRef i) DepotRef d) DepotRef (CustRef i) d
          DepotRef) (CustRef m) =
        distances (setDistanceTo (setDistanceTo ph (CustRef i) DepotRef d) DepotRef (CustRef i) d
          (CustRef m)) DepotRef"
    using depotSymmetricD[OF assms, of m]
    by (simp add: setDistanceTo_def)
qed

lemma pointStep_symmetric:
  assumes "depotSymmetric (fst st)"
  shows "depotSymmetric (fst (pointStep gd (map CustRef ks) DepotRef st (CustRef i)))"
proof -
  define st' where "st' = foldl (pairStep gd (CustRef i)) st (map CustRef ks)"
  have "depotSymmetric (fst st')" unfolding st'_def using assms by (rule pairs_symmetric)
  then show ?thesis
    unfolding pointStep_def st'_def[symmetric] Let_def fst_conv
    by (rule setDistance_depot_symmetric)
qed

lemma points_symmetric:
  "depotSymmetric (fst st) \<Longrightarrow>
   depotSymmetric (fst (foldl (pointStep gd (map CustRef ks) DepotRef) st (map CustRef is)))"
proof (induction "is" arbitrary: st)
  case Nil
  then show ?case by simp
next
  case (Cons i "is")
  from Cons.prems have "depotSymmetric (fst (pointStep gd (map CustRef ks) DepotRef st (CustRef i)))"
    by (rule pointStep_symmetric)
  then show ?case by (simp add: Cons.IH)
qed

lemma constructor_pointHeap:
  "pointHeap (constructor gd order n options) =
     fst (foldl (pointStep gd (map CustRef order) DepotRef)
            (\<lambda>p. case p of
                   DepotRef \<Rightarrow> \<lparr>point_x = depot_lon options, point_y = depot_lat options,
                                demand = Fin 0, distances = Map.empty\<rparr>
                 | CustRef i \<Rightarrow> fromCustomer (customers options ! i), NInf)
            (map CustRef order))"
  unfolding constructor_def Let_def by simp

lemma constructor_fields:
  "cw_depot (constructor gd order n options) = DepotRef"
  "maxDistance (constructor gd order n options) = options_maxDistance options"
  "cw_points (constructor gd order n options) = map CustRef order"
  "joinedRoutes (constructor gd order n options) = {}"
  unfolding constructor_def Let_def by simp_all

lemma constructor_symmetric:
  "getDistanceTo (pointHeap (constructor gd order n options)) DepotRef q =
   getDistanceTo (pointHeap (constructor gd order n options)) q DepotRef"
proof -
  let ?ph0 = "\<lambda>p. case p of
       DepotRef \<Rightarrow> \<lparr>point_x = depot_lon options, point_y = depot_lat options,
                    demand = Fin 0, distances = Map.empty\<rparr>
     | CustRef i \<Rightarrow> fromCustomer (customers options ! i)"
  have "depotSymmetric (fst (?ph0, NInf))"
    by (rule depotSymmetricI) (simp add: fromCustomer_def)
  then have "depotSymmetric (fst (foldl (pointStep gd (map CustRef order) DepotRef) (?ph0, NInf)
      (map CustRef order)))"
    by (rule points_symmetric)
  then have "depotSymmetric (pointHeap (constructor gd order n options))"
    by (simp only: constructor_pointHeap)
  then have "distances (pointHeap (constructor gd order n options) DepotRef) q =
      distances (pointHeap (constructor gd order n options) q) DepotRef"
    unfolding depotSymmetric_def by (rule spec)
  then show ?thesis
    by (simp only: getDistanceTo_def)
qed

section \<open>The feasibility check\<close>

text \<open>
  C4.  In every state of a constructed problem (whatever the routes, the active set, the
  savings and the marks are), \<open>verifyRouteJoin\<close> of two routes is true exactly when the
  estimate of the specification is strictly below \<open>maxDistance\<close>.  The code takes the depot
  leg of the second route from the table of its start point; the constructor stores one value
  in both tables.
\<close>

theorem verifyRouteJoin_estimate:
  "verifyRouteJoin
     ((constructor gd order n options)
        \<lparr>solutions := sl, savings_list := sv, joinedRoutes := jr, routeHeap := rh,
         routeIdCounter := c\<rparr>) a b
   = jlt (joinEstimate (pointHeap (constructor gd order n options)) DepotRef (rh a) (rh b))
         (options_maxDistance options)"
proof -
  show ?thesis
    by (simp add: verifyRouteJoin_def joinDistance_def joinEstimate_def Let_def
        constructor_symmetric constructor_fields)
qed

section \<open>The distance of a merged route\<close>

lemma jadd_cancel: "jadd (jadd c (Fin e)) (jneg (Fin e)) = c"
  by (cases c) simp_all

lemma distanceStep_apply:
  "distanceStep ph (p, c) point =
     (if point = p then (p, c) else (point, jadd c (getDistanceTo ph p point)))"
  by (simp add: distanceStep_def)

lemma distance_fold_fst: "fst (foldl (distanceStep ph) pc xs) = last (fst pc # xs)"
proof (induction xs arbitrary: pc)
  case Nil
  show ?case by simp
next
  case (Cons x xs)
  show ?case by (cases pc) (simp add: distanceStep_apply Cons.IH)
qed

lemma distance_fold_shift:
  "snd (foldl (distanceStep ph) (p, jadd k c) xs) = jadd k (snd (foldl (distanceStep ph) (p, c) xs))"
proof (induction xs arbitrary: p c)
  case Nil
  show ?case by simp
next
  case (Cons x xs)
  show ?case
  proof (cases "x = p")
    case True
    then show ?thesis by (simp add: distanceStep_apply Cons.IH)
  next
    case False
    then show ?thesis by (simp add: distanceStep_apply Cons.IH jadd_assoc)
  qed
qed

lemma distance_fold_from_zero:
  "snd (foldl (distanceStep ph) (p, k) xs) = jadd k (snd (foldl (distanceStep ph) (p, Fin 0) xs))"
  using distance_fold_shift[of ph p k "Fin 0" xs] by (simp add: jadd_zero_right)

lemma totalDistance_route:
  assumes "points r = dep # cs" "depot r = dep"
  shows "totalDistance ph r =
     jadd (snd (foldl (distanceStep ph) (dep, Fin 0) cs)) (getDistanceTo ph (last (dep # cs)) dep)"
  using assms by (simp add: totalDistance_def Let_def distanceStep_apply distance_fold_fst)

text \<open>
  C5.  Let two routes start at the depot and hold at least one more point each, let the start of
  the second be neither the depot nor the end of the first (two routes of the engine share no
  customer), and let the two depot legs that the estimate subtracts be numbers, the one of the
  second route the same in both directions.  Then right after \<open>joinRoute\<close> the total distance of
  the receiver is the value \<open>verifyRouteJoin\<close> computed before the merge, which is the estimate
  of the specification.
\<close>

theorem joinRoute_distance:
  assumes a: "points (routeHeap s a) = cw_depot s # as" "as \<noteq> []" "depot (routeHeap s a) = cw_depot s"
    and b: "points (routeHeap s b) = cw_depot s # bs" "bs \<noteq> []" "depot (routeHeap s b) = cw_depot s"
    and junction: "hd bs \<noteq> cw_depot s" "hd bs \<noteq> last as"
    and fin: "getDistanceTo (pointHeap s) (last as) (cw_depot s) = Fin e"
             "getDistanceTo (pointHeap s) (cw_depot s) (hd bs) = Fin f"
    and sym: "getDistanceTo (pointHeap s) (hd bs) (cw_depot s)
                = getDistanceTo (pointHeap s) (cw_depot s) (hd bs)"
  shows "totalDistance (pointHeap s) (joinRoute (routeHeap s) a b a) = joinDistance s a b \<and>
         totalDistance (pointHeap s) (joinRoute (routeHeap s) a b a)
           = joinEstimate (pointHeap s) (cw_depot s) (routeHeap s a) (routeHeap s b)"
proof -
  let ?ph = "pointHeap s" and ?dep = "cw_depot s"
  obtain b1 bs' where bs: "bs = b1 # bs'" using b(2) by (cases bs) auto
  define costA where "costA = snd (foldl (distanceStep ?ph) (?dep, Fin 0) as)"
  define S where "S = snd (foldl (distanceStep ?ph) (b1, Fin 0) bs')"
  define g where "g = getDistanceTo ?ph (last as) b1"
  define h where "h = getDistanceTo ?ph (last (b1 # bs')) ?dep"
  have enda: "getEnd (routeHeap s a) = last as"
    using a by (simp add: getEnd_def last_conv_nth)
  have startb: "getStart (routeHeap s b) = b1"
    using b bs by (simp add: getStart_def)
  have tA: "totalDistance ?ph (routeHeap s a) = jadd costA (Fin e)"
    using a fin by (simp add: totalDistance_route[OF a(1) a(3)] costA_def)
  have foldB: "foldl (distanceStep ?ph) (?dep, Fin 0) bs = foldl (distanceStep ?ph) (b1, Fin f) bs'"
    using junction fin bs by (simp add: distanceStep_apply)
  have tB: "totalDistance ?ph (routeHeap s b) = jadd (jadd (Fin f) S) h"
  proof -
    have "totalDistance ?ph (routeHeap s b)
        = jadd (snd (foldl (distanceStep ?ph) (?dep, Fin 0) bs))
            (getDistanceTo ?ph (last (?dep # bs)) ?dep)"
      by (rule totalDistance_route[OF b(1) b(3)])
    moreover have "snd (foldl (distanceStep ?ph) (?dep, Fin 0) bs) = jadd (Fin f) S"
      unfolding foldB S_def by (rule distance_fold_from_zero)
    moreover have "last (?dep # bs) = last (b1 # bs')"
      using bs by simp
    ultimately show ?thesis by (simp only: h_def)
  qed
  have pts: "points (joinRoute (routeHeap s) a b a) = ?dep # (as @ bs)"
    "depot (joinRoute (routeHeap s) a b a) = ?dep"
    using a b by (simp_all add: joinRoute_def)
  have fa: "foldl (distanceStep ?ph) (?dep, Fin 0) as = (last as, costA)"
    using a(2) by (simp add: prod_eq_iff distance_fold_fst costA_def)
  have foldM: "foldl (distanceStep ?ph) (?dep, Fin 0) (as @ bs)
      = foldl (distanceStep ?ph) (b1, jadd costA g) bs'"
    using junction bs by (simp add: fa distanceStep_apply g_def)
  have tM: "totalDistance ?ph (joinRoute (routeHeap s) a b a) = jadd (jadd (jadd costA g) S) h"
  proof -
    have "totalDistance ?ph (joinRoute (routeHeap s) a b a)
        = jadd (snd (foldl (distanceStep ?ph) (?dep, Fin 0) (as @ bs)))
            (getDistanceTo ?ph (last (?dep # (as @ bs))) ?dep)"
      by (rule totalDistance_route[OF pts])
    moreover have "snd (foldl (distanceStep ?ph) (?dep, Fin 0) (as @ bs)) = jadd (jadd costA g) S"
      unfolding foldM S_def by (rule distance_fold_from_zero)
    moreover have "last (?dep # (as @ bs)) = last (b1 # bs')"
      using bs by simp
    ultimately show ?thesis by (simp only: h_def)
  qed
  have est: "joinEstimate ?ph ?dep (routeHeap s a) (routeHeap s b)
      = jsub (jadd (jadd (jsub (jadd costA (Fin e)) (Fin e)) g) (jadd (jadd (Fin f) S) h)) (Fin f)"
    using fin bs by (simp add: joinEstimate_def enda startb tA tB g_def)
  have arith: "jsub (jadd (jadd (jsub (jadd costA (Fin e)) (Fin e)) g) (jadd (jadd (Fin f) S) h)) (Fin f)
      = jadd (jadd (jadd costA g) S) h"
    by (cases costA; cases g; cases S; cases h) (simp_all add: jsub_def)
  have same: "joinDistance s a b = joinEstimate ?ph ?dep (routeHeap s a) (routeHeap s b)"
    using sym bs by (simp add: joinDistance_def joinEstimate_def Let_def startb)
  show ?thesis
    by (simp add: same est arith tM)
qed

theorem joinRoute_distance_witness:
  "points (routeHeap (createRoutes twoCustomerProblem) 0)
     = cw_depot (createRoutes twoCustomerProblem) # [CustRef 0] \<and>
   points (routeHeap (createRoutes twoCustomerProblem) 1)
     = cw_depot (createRoutes twoCustomerProblem) # [CustRef 1] \<and>
   depot (routeHeap (createRoutes twoCustomerProblem) 0) = cw_depot (createRoutes twoCustomerProblem) \<and>
   depot (routeHeap (createRoutes twoCustomerProblem) 1) = cw_depot (createRoutes twoCustomerProblem) \<and>
   hd [CustRef 1] \<noteq> cw_depot (createRoutes twoCustomerProblem) \<and>
   hd [CustRef 1] \<noteq> last [CustRef 0] \<and>
   getDistanceTo (pointHeap (createRoutes twoCustomerProblem)) (last [CustRef 0])
     (cw_depot (createRoutes twoCustomerProblem)) = Fin 1 \<and>
   getDistanceTo (pointHeap (createRoutes twoCustomerProblem))
     (cw_depot (createRoutes twoCustomerProblem)) (hd [CustRef 1]) = Fin 2 \<and>
   getDistanceTo (pointHeap (createRoutes twoCustomerProblem)) (hd [CustRef 1])
     (cw_depot (createRoutes twoCustomerProblem)) = Fin 2 \<and>
   totalDistance (pointHeap (createRoutes twoCustomerProblem))
     (joinRoute (routeHeap (createRoutes twoCustomerProblem)) 0 1 0) = Fin 4 \<and>
   joinDistance (createRoutes twoCustomerProblem) 0 1 = Fin 4"
proof -
  let ?s = "createRoutes twoCustomerProblem"
  have hyps:
    "points (routeHeap ?s 0) = cw_depot ?s # [CustRef 0]"
    "[CustRef 0] \<noteq> []"
    "depot (routeHeap ?s 0) = cw_depot ?s"
    "points (routeHeap ?s 1) = cw_depot ?s # [CustRef 1]"
    "[CustRef 1] \<noteq> []"
    "depot (routeHeap ?s 1) = cw_depot ?s"
    "hd [CustRef 1] \<noteq> cw_depot ?s"
    "hd [CustRef 1] \<noteq> last [CustRef 0]"
    "getDistanceTo (pointHeap ?s) (last [CustRef 0]) (cw_depot ?s) = Fin 1"
    "getDistanceTo (pointHeap ?s) (cw_depot ?s) (hd [CustRef 1]) = Fin 2"
    "getDistanceTo (pointHeap ?s) (hd [CustRef 1]) (cw_depot ?s)
       = getDistanceTo (pointHeap ?s) (cw_depot ?s) (hd [CustRef 1])"
    unfolding tc_created by (simp_all add: twoCustomerRoutes_def)
  have total: "totalDistance (pointHeap ?s) (joinRoute (routeHeap ?s) 0 1 0) = Fin 4"
    unfolding tc_created
    by (simp add: twoCustomerRoutes_def joinRoute_def totalDistance_def distanceStep_def)
  from joinRoute_distance[OF hyps] hyps total show ?thesis
    by simp
qed

section \<open>The solver: what stays fixed\<close>

lemma mset_sortInsert: "mset (sortInsert cmp v us) = add_mset v (mset us)"
  by (induction us) simp_all

lemma mset_jsSort: "mset (jsSort cmp xs) = mset xs"
  by (induction xs) (simp_all add: jsSort_def mset_sortInsert)

lemma set_jsSort: "set (jsSort cmp xs) = set xs"
  using mset_jsSort[of cmp xs] by (metis set_mset_mset)

lemma findAll_frame:
  "pointHeap (findAllRouteSavingsPairs s w) = pointHeap s"
  "maxDistance (findAllRouteSavingsPairs s w) = maxDistance s"
  "cw_depot (findAllRouteSavingsPairs s w) = cw_depot s"
  "cw_points (findAllRouteSavingsPairs s w) = cw_points s"
  "routeHeap (findAllRouteSavingsPairs s w) = routeHeap s"
  "solutions (findAllRouteSavingsPairs s w) = solutions s"
  "joinedRoutes (findAllRouteSavingsPairs s w) = joinedRoutes s"
  by (simp_all add: findAllRouteSavingsPairs_def)

lemma joinRoutes_frame:
  "pointHeap (joinRoutes s a b) = pointHeap s"
  "maxDistance (joinRoutes s a b) = maxDistance s"
  "cw_depot (joinRoutes s a b) = cw_depot s"
  "cw_points (joinRoutes s a b) = cw_points s"
  by (simp_all add: joinRoutes_def Let_def)

lemma mergeStep_frame:
  "pointHeap (mergeStep s sv) = pointHeap s"
  "maxDistance (mergeStep s sv) = maxDistance s"
  "cw_depot (mergeStep s sv) = cw_depot s"
  "cw_points (mergeStep s sv) = cw_points s"
  by (simp_all add: mergeStep_def Let_def joinRoutes_frame)

lemma mergeLoop_frame:
  "pointHeap (foldl mergeStep s svs) = pointHeap s \<and>
   maxDistance (foldl mergeStep s svs) = maxDistance s \<and>
   cw_depot (foldl mergeStep s svs) = cw_depot s \<and>
   cw_points (foldl mergeStep s svs) = cw_points s"
  by (induction svs arbitrary: s) (simp_all add: mergeStep_frame)

lemma optimiseAll_frame:
  "pointHeap (optimiseAll s) = pointHeap s"
  "maxDistance (optimiseAll s) = maxDistance s"
  "cw_depot (optimiseAll s) = cw_depot s"
  "cw_points (optimiseAll s) = cw_points s"
  "solutions (optimiseAll s) = solutions s"
  "joinedRoutes (optimiseAll s) = joinedRoutes s"
  by (simp_all add: optimiseAll_def)

lemma solveRound_frame:
  "pointHeap (solveRound w opt s) = pointHeap s \<and>
   maxDistance (solveRound w opt s) = maxDistance s \<and>
   cw_depot (solveRound w opt s) = cw_depot s \<and>
   cw_points (solveRound w opt s) = cw_points s"
  using mergeLoop_frame[of s "savings_list s"]
  by (simp add: solveRound_def Let_def findAll_frame optimiseAll_frame)

lemma solveLoop_frame:
  "solveLoop fuel w opt s = Some s' \<Longrightarrow>
   pointHeap s' = pointHeap s \<and> maxDistance s' = maxDistance s \<and>
   cw_depot s' = cw_depot s \<and> cw_points s' = cw_points s"
proof (induction fuel arbitrary: s)
  case 0
  then show ?case by simp
next
  case (Suc fuel)
  show ?case
  proof (cases "savings_list s = []")
    case True
    with Suc.prems show ?thesis by simp
  next
    case False
    with Suc.prems have "solveLoop fuel w opt (solveRound w opt s) = Some s'" by simp
    from Suc.IH[OF this] solveRound_frame[of w opt s] show ?thesis by simp
  qed
qed

lemma createRoute_frame:
  "pointHeap (createRoute s p) = pointHeap s"
  "maxDistance (createRoute s p) = maxDistance s"
  "cw_depot (createRoute s p) = cw_depot s"
  "cw_points (createRoute s p) = cw_points s"
  "joinedRoutes (createRoute s p) = joinedRoutes s"
  by (simp_all add: createRoute_def)

lemma createLoop_frame:
  "pointHeap (foldl createRoute s ps) = pointHeap s \<and>
   maxDistance (foldl createRoute s ps) = maxDistance s \<and>
   cw_depot (foldl createRoute s ps) = cw_depot s \<and>
   cw_points (foldl createRoute s ps) = cw_points s \<and>
   joinedRoutes (foldl createRoute s ps) = joinedRoutes s"
  by (induction ps arbitrary: s) (simp_all add: createRoute_frame)

lemma createRoutes_frame:
  "pointHeap (createRoutes s) = pointHeap s"
  "maxDistance (createRoutes s) = maxDistance s"
  "cw_depot (createRoutes s) = cw_depot s"
  "cw_points (createRoutes s) = cw_points s"
  "joinedRoutes (createRoutes s) = joinedRoutes s"
  using createLoop_frame[of "s\<lparr>solutions := []\<rparr>" "cw_points s"]
  by (simp_all add: createRoutes_def)

section \<open>The output of the solver\<close>

text \<open>
  C1.  Every route that \<open>solve\<close> returns has a total distance strictly below \<open>maxDistance\<close>:
  the returned routes are exactly the active routes of the final state that pass this test.
\<close>

theorem solve_distance_cap:
  assumes "solve fuel p w opt = Some routes"
  shows "(\<forall>r \<in> set routes. jlt (totalDistance (pointHeap p) r) (maxDistance p)) \<and>
         (\<exists>s. solveLoop fuel w opt (findAllRouteSavingsPairs (createRoutes p) w) = Some s \<and>
              set routes = {r \<in> routeHeap s ` set (solutions s).
                             jlt (totalDistance (pointHeap p) r) (maxDistance p)})"
proof -
  from assms obtain s where
    s: "solveLoop fuel w opt (findAllRouteSavingsPairs (createRoutes p) w) = Some s"
    by (auto simp: solve_def split: option.splits)
  from solveLoop_frame[OF s] have fr: "pointHeap s = pointHeap p" "maxDistance s = maxDistance p"
    by (simp_all add: findAll_frame createRoutes_frame)
  from assms s have "set routes = {r \<in> routeHeap s ` set (solutions s).
      jlt (totalDistance (pointHeap p) r) (maxDistance p)}"
    by (auto simp: solve_def set_jsSort fr)
  with s show ?thesis by blast
qed

theorem solve_distance_cap_witness:
  "solve 3 twoCustomerProblem unitWeights True =
     Some [\<lparr>points = [DepotRef, CustRef 0, CustRef 1], depot = DepotRef, route_id = 0\<rparr>] \<and>
   totalDistance (pointHeap twoCustomerProblem)
     \<lparr>points = [DepotRef, CustRef 0, CustRef 1], depot = DepotRef, route_id = 0\<rparr> = Fin 4 \<and>
   jlt (totalDistance (pointHeap twoCustomerProblem)
          \<lparr>points = [DepotRef, CustRef 0, CustRef 1], depot = DepotRef, route_id = 0\<rparr>)
       (maxDistance twoCustomerProblem)"
proof -
  have "totalDistance (pointHeap twoCustomerProblem)
     \<lparr>points = [DepotRef, CustRef 0, CustRef 1], depot = DepotRef, route_id = 0\<rparr> = Fin 4"
    by (simp add: totalDistance_def distanceStep_def)
  with solve_distance_cap[OF tc_solve] tc_solve show ?thesis by simp
qed

section \<open>Savings that are not numbers\<close>

lemma nan_right [simp]:
  "jadd v NaN = NaN" "jmul v NaN = NaN" "jdiv v NaN = NaN" "jmax v NaN = NaN" "\<not> jlt v NaN"
  by (cases v; simp)+

lemma nan_left [simp]: "\<not> jlt NaN v"
  by (cases v) simp_all

lemma calculateSavings_nan:
  assumes "angle (pointHeap s (getEnd (routeHeap s a))) (pointHeap s (cw_depot s))
             (pointHeap s (getStart (routeHeap s b))) = NaN"
  shows "calculateSavings s a b w = NaN"
  using assms by (simp add: calculateSavings_def Let_def)

lemma savingsPair_feasible:
  "savingsPair s w route otherRoute = Some c \<Longrightarrow>
   verifyRouteJoin s (routeA c) (routeB c) \<and> routeA c \<noteq> routeB c \<and>
   {routeA c, routeB c} = {route, otherRoute}"
  by (auto simp: savingsPair_def Let_def split: if_splits)

lemma set_map_filter_Some:
  "set (List.map_filter f xs) = {v. \<exists>u \<in> set xs. f u = Some v}"
  by (induction xs) (auto split: option.splits)

lemma set_savings_list:
  "set (savings_list (findAllRouteSavingsPairs s w)) =
     {c. \<exists>route \<in> set (solutions s). \<exists>otherRoute \<in> set (solutions s).
           savingsPair s w route otherRoute = Some c}"
  by (simp add: findAllRouteSavingsPairs_def set_jsSort savingsPairs_def set_map_filter_Some) blast

text \<open>
  C3, as the code has it.  When the angle of a pair of routes is \<open>NaN\<close> (in either
  orientation), the score of the pair is \<open>NaN\<close>; the threshold test \<open>savings < minSavings\<close> is
  false for it and discards nothing; the entry, with the other route first, is in the sorted
  savings list exactly when the join passes the feasibility check.
\<close>

theorem nan_candidate_kept:
  assumes "route \<noteq> otherRoute"
    and "angle (pointHeap s (getEnd (routeHeap s route))) (pointHeap s (cw_depot s))
           (pointHeap s (getStart (routeHeap s otherRoute))) = NaN \<or>
         angle (pointHeap s (getEnd (routeHeap s otherRoute))) (pointHeap s (cw_depot s))
           (pointHeap s (getStart (routeHeap s route))) = NaN"
  shows "jmax (calculateSavings s route otherRoute w) (calculateSavings s otherRoute route w) = NaN \<and>
         \<not> jlt (jmax (calculateSavings s route otherRoute w) (calculateSavings s otherRoute route w))
               (minSavings w) \<and>
         savingsPair s w route otherRoute =
           (if verifyRouteJoin s otherRoute route
            then Some \<lparr>savings = NaN, routeA = otherRoute, routeB = route\<rparr> else None) \<and>
         (route \<in> set (solutions s) \<and> otherRoute \<in> set (solutions s) \<longrightarrow>
            (\<lparr>savings = NaN, routeA = otherRoute, routeB = route\<rparr>
               \<in> set (savings_list (findAllRouteSavingsPairs s w))
             \<longleftrightarrow> verifyRouteJoin s otherRoute route))"
proof -
  let ?ab = "calculateSavings s route otherRoute w" and ?ba = "calculateSavings s otherRoute route w"
  from assms(2) have "?ab = NaN \<or> ?ba = NaN"
    using calculateSavings_nan by blast
  then have mx: "jmax ?ab ?ba = NaN" and gt: "\<not> jgt ?ab ?ba"
    by (auto simp: jgt_def)
  have pair: "savingsPair s w route otherRoute =
      (if verifyRouteJoin s otherRoute route
       then Some \<lparr>savings = NaN, routeA = otherRoute, routeB = route\<rparr> else None)"
    using assms(1) mx gt by (simp add: savingsPair_def Let_def)
  have "(\<lparr>savings = NaN, routeA = otherRoute, routeB = route\<rparr>
          \<in> set (savings_list (findAllRouteSavingsPairs s w)))
        = verifyRouteJoin s otherRoute route"
    if "route \<in> set (solutions s)" "otherRoute \<in> set (solutions s)"
  proof
    assume "\<lparr>savings = NaN, routeA = otherRoute, routeB = route\<rparr>
          \<in> set (savings_list (findAllRouteSavingsPairs s w))"
    then obtain r r' where "savingsPair s w r r' = Some \<lparr>savings = NaN, routeA = otherRoute, routeB = route\<rparr>"
      by (auto simp: set_savings_list)
    from savingsPair_feasible[OF this] show "verifyRouteJoin s otherRoute route" by simp
  next
    assume "verifyRouteJoin s otherRoute route"
    with pair that show "\<lparr>savings = NaN, routeA = otherRoute, routeB = route\<rparr>
          \<in> set (savings_list (findAllRouteSavingsPairs s w))"
      by (auto simp: set_savings_list)
  qed
  with mx pair show ?thesis by simp
qed

theorem nan_candidate_kept_witness:
  "(0::nat) \<noteq> 1 \<and>
   angle (pointHeap (createRoutes depotCustomerProblem)
            (getEnd (routeHeap (createRoutes depotCustomerProblem) 0)))
         (pointHeap (createRoutes depotCustomerProblem) (cw_depot (createRoutes depotCustomerProblem)))
         (pointHeap (createRoutes depotCustomerProblem)
            (getStart (routeHeap (createRoutes depotCustomerProblem) 1))) = NaN \<and>
   0 \<in> set (solutions (createRoutes depotCustomerProblem)) \<and>
   1 \<in> set (solutions (createRoutes depotCustomerProblem)) \<and>
   verifyRouteJoin (createRoutes depotCustomerProblem) 1 0 \<and>
   \<lparr>savings = NaN, routeA = 1, routeB = 0\<rparr>
     \<in> set (savings_list (findAllRouteSavingsPairs (createRoutes depotCustomerProblem) unitWeights))"
proof -
  have ang: "angle (pointHeap (createRoutes depotCustomerProblem)
            (getEnd (routeHeap (createRoutes depotCustomerProblem) 0)))
         (pointHeap (createRoutes depotCustomerProblem) (cw_depot (createRoutes depotCustomerProblem)))
         (pointHeap (createRoutes depotCustomerProblem)
            (getStart (routeHeap (createRoutes depotCustomerProblem) 1))) = NaN"
    unfolding dc_created
    by (simp add: depotCustomerRoutes_def getStart_def getEnd_def angle_def jsub_def jpow2_def)
  have sol: "0 \<in> set (solutions (createRoutes depotCustomerProblem))"
    "1 \<in> set (solutions (createRoutes depotCustomerProblem))"
    by (simp_all add: dc_created)
  have ne: "(0::nat) \<noteq> 1" by simp
  from nan_candidate_kept[OF ne disjI1[OF ang], of unitWeights] sol dc_feasible ang
  show ?thesis by simp
qed

text \<open>
  C3, as the specification has it, fails: with a customer on the depot the angle is \<open>0/0\<close>,
  the score is \<open>NaN\<close>, and both entries of the savings list carry it.
\<close>

theorem nan_candidate_counterexample:
  "angle (pointHeap depotCustomerProblem (CustRef 0)) (pointHeap depotCustomerProblem DepotRef)
     (pointHeap depotCustomerProblem (CustRef 1)) = NaN \<and>
   calculateSavings (createRoutes depotCustomerProblem) 0 1 unitWeights = NaN \<and>
   \<not> jlt NaN (minSavings unitWeights) \<and>
   savings_list (findAllRouteSavingsPairs (createRoutes depotCustomerProblem) unitWeights)
     = [\<lparr>savings = NaN, routeA = 1, routeB = 0\<rparr>, \<lparr>savings = NaN, routeA = 0, routeB = 1\<rparr>]"
proof -
  have "calculateSavings (createRoutes depotCustomerProblem) 0 1 unitWeights = NaN"
    unfolding dc_created
    by (rule calculateSavings_nan)
      (simp add: depotCustomerRoutes_def getStart_def getEnd_def angle_def jsub_def jpow2_def)
  with dc_angle dc_scored show ?thesis by simp
qed

section \<open>The partition of the customers\<close>

lemma wellFormedRoute_customers:
  assumes "wellFormedRoute dep r"
  shows "customersOf dep r = tl (points r)" "customersOf dep r \<noteq> []"
    "points r = dep # customersOf dep r"
    "points r ! 1 \<in> set (customersOf dep r)"
    "points r ! (length (points r) - 1) \<in> set (customersOf dep r)"
proof -
  from assms obtain cs where pts: "points r = dep # cs" "cs \<noteq> []" "dep \<notin> set cs"
    by (cases "points r") (auto simp: wellFormedRoute_def)
  then have f: "filter (\<lambda>p. p \<noteq> dep) cs = cs"
    by (auto simp: filter_id_conv)
  with pts show "customersOf dep r = tl (points r)" "customersOf dep r \<noteq> []"
    "points r = dep # customersOf dep r"
    by (simp_all add: customersOf_def)
  from pts f show "points r ! 1 \<in> set (customersOf dep r)"
    by (cases cs) (simp_all add: customersOf_def)
  from pts f show "points r ! (length (points r) - 1) \<in> set (customersOf dep r)"
    by (simp add: customersOf_def last_conv_nth[symmetric])
qed

lemma disjoint_in_concat:
  "distinct (concat (map f xs)) \<Longrightarrow> u \<in> set xs \<Longrightarrow> v \<in> set xs \<Longrightarrow> u \<noteq> v \<Longrightarrow>
   set (f u) \<inter> set (f v) = {}"
  by (induction xs) auto

lemma roundInvariant_distinct:
  "roundInvariant s \<Longrightarrow> distinct (activeCustomers s)"
  by (metis roundInvariant_def mset_eq_imp_distinct_iff)

lemma roundInvariant_disjoint:
  assumes "roundInvariant s" "u \<in> set (solutions s)" "v \<in> set (solutions s)" "u \<noteq> v"
  shows "set (customersOf (cw_depot s) (routeHeap s u))
           \<inter> set (customersOf (cw_depot s) (routeHeap s v)) = {}"
  using roundInvariant_distinct[OF assms(1)] assms(2-4)
  unfolding activeCustomers_def by (rule disjoint_in_concat)

lemma roundInvariant_partitions:
  assumes "roundInvariant s"
  shows "partitionsCustomers s"
proof -
  from assms have "mset (activeCustomers s) = mset (cw_points s)"
    by (simp add: roundInvariant_def)
  then have "set (activeCustomers s) = set (cw_points s)"
    by (rule mset_eq_setD)
  with roundInvariant_distinct[OF assms] show ?thesis
    by (simp add: partitionsCustomers_def)
qed

lemma joinRoutes_unfold:
  assumes "verifyRouteJoin s X Y" "Y \<in> set (solutions s)"
    "route_id (routeHeap s X) = X" "route_id (routeHeap s Y) = Y"
  shows "joinRoutes s X Y =
     s\<lparr>routeHeap := joinRoute (routeHeap s) X Y,
       joinedRoutes := insert Y (insert X (joinedRoutes s)),
       solutions := remove1 Y (solutions s)\<rparr>"
  using assms by (simp add: joinRoutes_def Let_def spliceOut_def joinRoute_def)

lemma joinRoute_customers:
  assumes "wellFormedRoute dep (rh Y)"
  shows "customersOf dep (joinRoute rh X Y r) =
     (if r = X then customersOf dep (rh X) @ customersOf dep (rh Y) else customersOf dep (rh r))"
proof -
  have "drop 1 (points (rh Y)) = customersOf dep (rh Y)"
    using wellFormedRoute_customers(1)[OF assms] by (simp add: drop_Suc)
  moreover have "filter (\<lambda>p. p \<noteq> dep) (customersOf dep (rh Y)) = customersOf dep (rh Y)"
    by (simp add: customersOf_def)
  ultimately show ?thesis
    by (simp add: joinRoute_def customersOf_def)
qed

lemma joinRoute_wellFormed:
  assumes "wellFormedRoute dep (rh Y)" "wellFormedRoute dep (rh r)"
  shows "wellFormedRoute dep (joinRoute rh X Y r)"
proof (cases "r = X")
  case False
  with assms show ?thesis by (simp add: joinRoute_def)
next
  case True
  from assms(1) have y: "drop 1 (points (rh Y)) = tl (points (rh Y))" "dep \<notin> set (tl (points (rh Y)))"
    by (simp_all add: wellFormedRoute_def drop_Suc)
  from assms(2) True have x: "points (rh X) \<noteq> []" "hd (points (rh X)) = dep"
    "tl (points (rh X)) \<noteq> []" "dep \<notin> set (tl (points (rh X)))"
    by (simp_all add: wellFormedRoute_def)
  with y True show ?thesis
    by (simp add: joinRoute_def wellFormedRoute_def)
qed

lemma joinRoute_route_id: "route_id (joinRoute rh X Y r) = route_id (rh r)"
  by (simp add: joinRoute_def)

lemma mset_concat_map: "mset (concat (map f xs)) = sum_list (map (\<lambda>u. mset (f u)) xs)"
  by (induction xs) simp_all

lemma joined_active_mset:
  assumes d: "distinct sols" and X: "X \<in> set sols" and Y: "Y \<in> set sols" and ne: "X \<noteq> Y"
    and g': "\<And>r. g' r = (if r = X then g X @ g Y else g r)"
  shows "mset (concat (map g' (remove1 Y sols))) = mset (concat (map g sols))"
proof -
  let ?rest = "remove1 X (remove1 Y sols)"
  have Xr: "X \<in> set (remove1 Y sols)" using X ne by simp
  have notin: "X \<notin> set ?rest" using d by simp
  have same: "map (\<lambda>u. mset (g' u)) ?rest = map (\<lambda>u. mset (g u)) ?rest"
    using notin by (intro map_cong) (auto simp: g')
  have "sum_list (map (\<lambda>u. mset (g' u)) (remove1 Y sols))
      = mset (g' X) + sum_list (map (\<lambda>u. mset (g' u)) ?rest)"
    using Xr by (rule sum_list_map_remove1)
  also have "\<dots> = mset (g X) + mset (g Y) + sum_list (map (\<lambda>u. mset (g u)) ?rest)"
    by (simp only: same) (simp add: g')
  finally have lhs: "sum_list (map (\<lambda>u. mset (g' u)) (remove1 Y sols))
      = mset (g X) + mset (g Y) + sum_list (map (\<lambda>u. mset (g u)) ?rest)" .
  have "sum_list (map (\<lambda>u. mset (g u)) sols)
      = mset (g Y) + sum_list (map (\<lambda>u. mset (g u)) (remove1 Y sols))"
    using Y by (rule sum_list_map_remove1)
  also have "sum_list (map (\<lambda>u. mset (g u)) (remove1 Y sols))
      = mset (g X) + sum_list (map (\<lambda>u. mset (g u)) ?rest)"
    using Xr by (rule sum_list_map_remove1)
  finally have rhs: "sum_list (map (\<lambda>u. mset (g u)) sols)
      = mset (g X) + mset (g Y) + sum_list (map (\<lambda>u. mset (g u)) ?rest)"
    by (simp add: ac_simps)
  show ?thesis
    by (simp only: mset_concat_map lhs rhs)
qed

lemma joinRoutes_fields:
  assumes "verifyRouteJoin s X Y" "Y \<in> set (solutions s)"
    "route_id (routeHeap s X) = X" "route_id (routeHeap s Y) = Y"
  shows "cw_depot (joinRoutes s X Y) = cw_depot s"
    "cw_points (joinRoutes s X Y) = cw_points s"
    "routeHeap (joinRoutes s X Y) = joinRoute (routeHeap s) X Y"
    "solutions (joinRoutes s X Y) = remove1 Y (solutions s)"
    "joinedRoutes (joinRoutes s X Y) = insert Y (insert X (joinedRoutes s))"
  by (simp_all add: joinRoutes_unfold[OF assms])

lemma joinRoutes_roundInvariant:
  assumes inv: "roundInvariant s"
    and X: "X \<in> set (solutions s)" and Y: "Y \<in> set (solutions s)" and ne: "X \<noteq> Y"
  shows "roundInvariant (joinRoutes s X Y)"
proof (cases "verifyRouteJoin s X Y")
  case False
  with inv show ?thesis by (simp add: joinRoutes_def)
next
  case True
  let ?dep = "cw_depot s" and ?rh = "routeHeap s" and ?s' = "joinRoutes s X Y"
  from inv X Y have wfX: "wellFormedRoute ?dep (?rh X)" and idX: "route_id (?rh X) = X"
    and wfY: "wellFormedRoute ?dep (?rh Y)" and idY: "route_id (?rh Y) = Y"
    by (simp_all add: roundInvariant_def)
  note f = joinRoutes_fields[OF True Y idX idY]
  have cust: "customersOf ?dep (joinRoute ?rh X Y r) =
      (if r = X then customersOf ?dep (?rh X) @ customersOf ?dep (?rh Y)
       else customersOf ?dep (?rh r))" for r
    by (rule joinRoute_customers[where rh = "?rh" and Y = Y, OF wfY])
  from inv have d: "distinct (solutions s)" and dp: "distinct (cw_points s)"
    and m0: "mset (activeCustomers s) = mset (cw_points s)"
    by (simp_all add: roundInvariant_def)
  have "mset (concat (map (\<lambda>r. customersOf ?dep (joinRoute ?rh X Y r)) (remove1 Y (solutions s))))
      = mset (concat (map (\<lambda>r. customersOf ?dep (?rh r)) (solutions s)))"
    using d X Y ne cust by (rule joined_active_mset)
  then have "mset (activeCustomers ?s') = mset (activeCustomers s)"
    by (simp only: activeCustomers_def f)
  then have m: "mset (activeCustomers ?s') = mset (cw_points ?s')"
    by (simp only: m0 f)
  have wf: "wellFormedRoute (cw_depot ?s') (routeHeap ?s' r) \<and> route_id (routeHeap ?s' r) = r"
    if "r \<in> set (solutions ?s')" for r
  proof -
    from that have "r \<in> set (remove1 Y (solutions s))" by (simp only: f)
    then have "r \<in> set (solutions s)" using set_remove1_subset by fastforce
    with inv have "wellFormedRoute ?dep (?rh r)" "route_id (?rh r) = r"
      by (simp_all add: roundInvariant_def)
    then show ?thesis
      by (simp only: f joinRoute_route_id joinRoute_wellFormed[where rh = "?rh" and Y = Y, OF wfY])
  qed
  have d': "distinct (solutions ?s')" using d by (simp only: f distinct_remove1)
  have dp': "distinct (cw_points ?s')" using dp by (simp only: f)
  show ?thesis
    unfolding roundInvariant_def using dp' d' m wf by blast
qed

lemma joinedCustomersI:
  "u \<in> set (solutions s) \<Longrightarrow> u \<in> joinedRoutes s \<Longrightarrow>
   set (customersOf (cw_depot s) (routeHeap s u)) \<subseteq> joinedCustomers s"
  by (auto simp: joinedCustomers_def)

lemma joinedCustomersE:
  assumes "p \<in> joinedCustomers s"
  obtains u where "u \<in> set (solutions s)" "u \<in> joinedRoutes s"
    "p \<in> set (customersOf (cw_depot s) (routeHeap s u))"
  using assms by (auto simp: joinedCustomers_def)

lemma joinRoutes_candidateRoute:
  assumes inv: "roundInvariant s"
    and X: "X \<in> set (solutions s)" and Y: "Y \<in> set (solutions s)" and ne: "X \<noteq> Y"
    and c: "candidateRoute s r"
  shows "candidateRoute (joinRoutes s X Y) r"
proof (cases "verifyRouteJoin s X Y")
  case False
  with c show ?thesis by (simp add: joinRoutes_def)
next
  case True
  let ?dep = "cw_depot s" and ?rh = "routeHeap s" and ?s' = "joinRoutes s X Y"
  from inv X Y have wfX: "wellFormedRoute ?dep (?rh X)" and idX: "route_id (?rh X) = X"
    and wfY: "wellFormedRoute ?dep (?rh Y)" and idY: "route_id (?rh Y) = Y"
    by (simp_all add: roundInvariant_def)
  note f = joinRoutes_fields[OF True Y idX idY]
  have cust: "customersOf (cw_depot ?s') (routeHeap ?s' u) =
      (if u = X then customersOf ?dep (?rh X) @ customersOf ?dep (?rh Y)
       else customersOf ?dep (?rh u))" for u
    unfolding f by (rule joinRoute_customers[where rh = "?rh" and Y = Y, OF wfY])
  from inv have d: "distinct (solutions s)" unfolding roundInvariant_def by blast
  have sol: "u \<in> set (solutions ?s') \<longleftrightarrow> u \<in> set (solutions s) \<and> u \<noteq> Y" for u
    unfolding f using d by auto
  have jn: "u \<in> joinedRoutes ?s' \<longleftrightarrow> u = Y \<or> u = X \<or> u \<in> joinedRoutes s" for u
    by (simp add: f)
  have Xin: "X \<in> set (solutions ?s')" "X \<in> joinedRoutes ?s'"
    using X ne by (simp_all add: sol jn)
  have custX: "set (customersOf (cw_depot ?s') (routeHeap ?s' X))
      = set (customersOf ?dep (?rh X)) \<union> set (customersOf ?dep (?rh Y))"
    by (simp add: cust)
  have grow: "set (customersOf ?dep (?rh u)) \<subseteq> joinedCustomers ?s'"
    if "(u \<in> set (solutions s) \<and> u \<in> joinedRoutes s) \<or> u = Y \<or> u = X" for u
  proof (cases "u = X \<or> u = Y")
    case True
    then have "set (customersOf ?dep (?rh u)) \<subseteq> set (customersOf (cw_depot ?s') (routeHeap ?s' X))"
      unfolding custX by blast
    also have "\<dots> \<subseteq> joinedCustomers ?s'"
      using Xin by (rule joinedCustomersI)
    finally show ?thesis .
  next
    case False
    with that have "u \<in> set (solutions ?s')" "u \<in> joinedRoutes ?s'"
      by (simp_all add: sol jn)
    then have "set (customersOf (cw_depot ?s') (routeHeap ?s' u)) \<subseteq> joinedCustomers ?s'"
      by (rule joinedCustomersI)
    moreover from False have "customersOf (cw_depot ?s') (routeHeap ?s' u) = customersOf ?dep (?rh u)"
      by (simp add: cust)
    ultimately show ?thesis by simp
  qed
  have mono: "joinedCustomers s \<subseteq> joinedCustomers ?s'"
  proof
    fix p assume "p \<in> joinedCustomers s"
    then obtain u where "u \<in> set (solutions s)" "u \<in> joinedRoutes s"
      "p \<in> set (customersOf ?dep (?rh u))"
      by (rule joinedCustomersE)
    with grow[of u] show "p \<in> joinedCustomers ?s'" by blast
  qed
  from c have id: "route_id (?rh r) = r" and wfr: "wellFormedRoute ?dep (?rh r)"
    by (simp_all add: candidateRoute_def)
  have base: "route_id (routeHeap ?s' r) = r" "wellFormedRoute (cw_depot ?s') (routeHeap ?s' r)"
    using id wfr
    by (simp_all only: f joinRoute_route_id joinRoute_wellFormed[where rh = "?rh" and Y = Y, OF wfY])
  show ?thesis
  proof (cases "r \<in> set (solutions s)")
    case act: True
    show ?thesis
    proof (cases "r = Y")
      case False
      with act have "r \<in> set (solutions ?s')" by (simp add: sol)
      with base show ?thesis unfolding candidateRoute_def by blast
    next
      case rY: True
      with ne have "customersOf (cw_depot ?s') (routeHeap ?s' r) = customersOf ?dep (?rh Y)"
        by (simp add: cust)
      moreover have "set (customersOf ?dep (?rh Y)) \<subseteq> joinedCustomers ?s'"
        by (rule grow) simp
      moreover have "r \<in> joinedRoutes ?s'" using rY by (simp add: jn)
      ultimately show ?thesis using base unfolding candidateRoute_def by simp
    qed
  next
    case ret: False
    with c have j: "r \<in> joinedRoutes s"
      and sub: "set (customersOf ?dep (?rh r)) \<subseteq> joinedCustomers s"
      unfolding candidateRoute_def by blast+
    from ret X have "r \<noteq> X" by blast
    then have "customersOf (cw_depot ?s') (routeHeap ?s' r) = customersOf ?dep (?rh r)"
      by (simp add: cust)
    moreover from j have "r \<in> joinedRoutes ?s'" by (simp add: jn)
    moreover from sub mono have "set (customersOf ?dep (?rh r)) \<subseteq> joinedCustomers ?s'"
      by blast
    ultimately show ?thesis using base unfolding candidateRoute_def by simp
  qed
qed

lemma candidateRoute_ends:
  assumes "candidateRoute s r"
  shows "getStart (routeHeap s r) \<in> set (customersOf (cw_depot s) (routeHeap s r))"
    and "getEnd (routeHeap s r) \<in> set (customersOf (cw_depot s) (routeHeap s r))"
proof -
  from assms have "wellFormedRoute (cw_depot s) (routeHeap s r)"
    by (simp add: candidateRoute_def)
  from wellFormedRoute_customers(4,5)[OF this]
  show "getStart (routeHeap s r) \<in> set (customersOf (cw_depot s) (routeHeap s r))"
    and "getEnd (routeHeap s r) \<in> set (customersOf (cw_depot s) (routeHeap s r))"
    by (simp_all add: getStart_def getEnd_def)
qed

lemma active_candidateRoute:
  "roundInvariant s \<Longrightarrow> r \<in> set (solutions s) \<Longrightarrow> candidateRoute s r"
  by (simp add: roundInvariant_def candidateRoute_def)

lemma unjoined_disjoint:
  assumes inv: "roundInvariant s" and A: "A \<in> set (solutions s)" "A \<notin> joinedRoutes s"
    and B: "candidateRoute s B" "B \<in> joinedRoutes s"
  shows "set (customersOf (cw_depot s) (routeHeap s A))
           \<inter> set (customersOf (cw_depot s) (routeHeap s B)) = {}"
proof (cases "B \<in> set (solutions s)")
  case True
  moreover from A B have "A \<noteq> B" by blast
  ultimately show ?thesis using inv A(1) by (intro roundInvariant_disjoint)
next
  case False
  with B have sub: "set (customersOf (cw_depot s) (routeHeap s B)) \<subseteq> joinedCustomers s"
    by (simp add: candidateRoute_def)
  have "p \<notin> set (customersOf (cw_depot s) (routeHeap s A))"
    if "p \<in> set (customersOf (cw_depot s) (routeHeap s B))" for p
  proof -
    from that sub have "p \<in> joinedCustomers s" by blast
    then obtain u where u: "u \<in> set (solutions s)" "u \<in> joinedRoutes s"
      "p \<in> set (customersOf (cw_depot s) (routeHeap s u))"
      by (rule joinedCustomersE)
    with A have "A \<noteq> u" by blast
    with inv A(1) u(1) have "set (customersOf (cw_depot s) (routeHeap s A))
           \<inter> set (customersOf (cw_depot s) (routeHeap s u)) = {}"
      by (intro roundInvariant_disjoint)
    with u(3) show ?thesis by blast
  qed
  then show ?thesis by blast
qed

text \<open>Every join that the loop body makes joins two different active routes.\<close>

lemma mergeStep_cases:
  assumes inv: "roundInvariant s"
    and ca: "candidateRoute s (routeA sv)" and cb: "candidateRoute s (routeB sv)"
    and ne: "routeA sv \<noteq> routeB sv"
  shows "mergeStep s sv = s \<or>
         (\<exists>X Y. X \<in> set (solutions s) \<and> Y \<in> set (solutions s) \<and> X \<noteq> Y \<and>
                mergeStep s sv = joinRoutes s X Y)"
proof -
  let ?a = "routeA sv" and ?b = "routeB sv" and ?rh = "routeHeap s" and ?J = "joinedRoutes s"
  let ?z = "solutions s ! 0"
  from ca cb have ida: "route_id (?rh ?a) = ?a" and idb: "route_id (?rh ?b) = ?b"
    by (simp_all add: candidateRoute_def)
  have active: "r \<in> set (solutions s)" if "candidateRoute s r" "r \<notin> ?J" for r
    using that by (auto simp: candidateRoute_def)
  consider (both) "?a \<notin> ?J" "?b \<notin> ?J"
    | (first) "?a \<notin> ?J" "?b \<in> ?J"
    | (second) "?a \<in> ?J" "?b \<notin> ?J"
    | (none) "?a \<in> ?J" "?b \<in> ?J"
    by blast
  then show ?thesis
  proof cases
    case both
    then have "mergeStep s sv = joinRoutes s ?a ?b"
      by (simp add: mergeStep_def Let_def ida idb)
    moreover from both ca cb have "?a \<in> set (solutions s)" "?b \<in> set (solutions s)"
      by (simp_all add: active)
    ultimately show ?thesis using ne by blast
  next
    case first
    from first(1) ca have A: "?a \<in> set (solutions s)" by (simp add: active)
    show ?thesis
    proof (cases "solutions s \<noteq> [] \<and> getStart (?rh ?z) = getStart (?rh ?b)")
      case False
      with first have "mergeStep s sv = s"
        by (auto simp: mergeStep_def Let_def ida idb)
      then show ?thesis ..
    next
      case True
      with first have eq: "mergeStep s sv = joinRoutes s ?a ?z"
        by (simp add: mergeStep_def Let_def ida idb)
      from True have Z: "?z \<in> set (solutions s)" by simp
      have "?a \<noteq> ?z"
      proof
        assume "?a = ?z"
        with True have "getStart (?rh ?a) = getStart (?rh ?b)" by simp
        with candidateRoute_ends(1)[OF ca] candidateRoute_ends(1)[OF cb]
        have "getStart (?rh ?a) \<in> set (customersOf (cw_depot s) (?rh ?a))
            \<inter> set (customersOf (cw_depot s) (?rh ?b))"
          by simp
        with unjoined_disjoint[OF inv A first(1) cb first(2)] show False by blast
      qed
      with eq A Z show ?thesis by blast
    qed
  next
    case second
    from second(2) cb have B: "?b \<in> set (solutions s)" by (simp add: active)
    show ?thesis
    proof (cases "solutions s \<noteq> [] \<and> getEnd (?rh ?z) = getEnd (?rh ?a)")
      case False
      with second have "mergeStep s sv = s"
        by (auto simp: mergeStep_def Let_def ida idb)
      then show ?thesis ..
    next
      case True
      with second have eq: "mergeStep s sv = joinRoutes s ?z ?b"
        by (simp add: mergeStep_def Let_def ida idb)
      from True have Z: "?z \<in> set (solutions s)" by simp
      have "?z \<noteq> ?b"
      proof
        assume "?z = ?b"
        with True have "getEnd (?rh ?b) = getEnd (?rh ?a)" by simp
        with candidateRoute_ends(2)[OF ca] candidateRoute_ends(2)[OF cb]
        have "getEnd (?rh ?b) \<in> set (customersOf (cw_depot s) (?rh ?b))
            \<inter> set (customersOf (cw_depot s) (?rh ?a))"
          by simp
        with unjoined_disjoint[OF inv B second(2) ca second(1)] show False by blast
      qed
      with eq B Z show ?thesis by blast
    qed
  next
    case none
    then have "mergeStep s sv = s"
      by (simp add: mergeStep_def Let_def ida idb)
    then show ?thesis ..
  qed
qed

lemma mergeStep_invariant:
  assumes inv: "roundInvariant s" and cands: "candidatesInvariant s cands" and sv: "sv \<in> set cands"
  shows "roundInvariant (mergeStep s sv) \<and> candidatesInvariant (mergeStep s sv) cands"
proof -
  from cands sv have "candidateRoute s (routeA sv)" "candidateRoute s (routeB sv)"
    "routeA sv \<noteq> routeB sv"
    by (simp_all add: candidatesInvariant_def)
  from mergeStep_cases[OF inv this] show ?thesis
  proof
    assume "mergeStep s sv = s"
    with inv cands show ?thesis by simp
  next
    assume "\<exists>X Y. X \<in> set (solutions s) \<and> Y \<in> set (solutions s) \<and> X \<noteq> Y \<and>
                mergeStep s sv = joinRoutes s X Y"
    then obtain X Y where XY: "X \<in> set (solutions s)" "Y \<in> set (solutions s)" "X \<noteq> Y"
      and eq: "mergeStep s sv = joinRoutes s X Y"
      by blast
    have "roundInvariant (joinRoutes s X Y)"
      using inv XY by (rule joinRoutes_roundInvariant)
    moreover have "candidateRoute (joinRoutes s X Y) r" if "candidateRoute s r" for r
      using inv XY that by (rule joinRoutes_candidateRoute)
    then have "candidatesInvariant (joinRoutes s X Y) cands"
      using cands unfolding candidatesInvariant_def by blast
    ultimately show ?thesis by (simp add: eq)
  qed
qed

lemma mergeLoop_invariant:
  "roundInvariant s \<Longrightarrow> candidatesInvariant s cands \<Longrightarrow> set svs \<subseteq> set cands \<Longrightarrow>
   roundInvariant (foldl mergeStep s svs) \<and> candidatesInvariant (foldl mergeStep s svs) cands"
proof (induction svs arbitrary: s)
  case Nil
  then show ?case by simp
next
  case (Cons sv svs)
  from Cons.prems have "sv \<in> set cands" by simp
  with Cons.prems have "roundInvariant (mergeStep s sv) \<and> candidatesInvariant (mergeStep s sv) cands"
    by (intro mergeStep_invariant)
  with Cons.IH[of "mergeStep s sv"] Cons.prems show ?case by simp
qed

lemma sameStops_refl: "sameStops r r"
  by (simp add: sameStops_def)

lemma sameStops_trans: "sameStops r r' \<Longrightarrow> sameStops r' r'' \<Longrightarrow> sameStops r r''"
  by (simp add: sameStops_def)

lemma sameStops_optimise: "sameStops r (optimise ph n r)"
  using optimiseLoop_preserves[of ph n "Fin 0" r] by (simp add: sameStops_def optimise_def)

lemma optimise_fold_sameStops:
  "sameStops (rh r)
     (foldl (\<lambda>rh solution. rh(solution := optimise ph n (rh solution))) rh xs r)"
proof (induction xs arbitrary: rh)
  case Nil
  show ?case by (simp add: sameStops_refl)
next
  case (Cons u xs)
  let ?rh1 = "rh(u := optimise ph n (rh u))"
  have "sameStops (rh r) (?rh1 r)"
    by (simp add: sameStops_refl sameStops_optimise)
  moreover have "sameStops (?rh1 r)
      (foldl (\<lambda>rh solution. rh(solution := optimise ph n (rh solution))) ?rh1 xs r)"
    by (rule Cons.IH)
  ultimately show ?case
    by (simp only: foldl_Cons) (rule sameStops_trans)
qed

lemma sameStops_customers:
  assumes "sameStops r r'"
  shows "mset (customersOf dep r') = mset (customersOf dep r)"
  using assms by (simp add: sameStops_def customersOf_def)

lemma sameStops_wellFormed:
  assumes same: "sameStops r r'" and wf: "wellFormedRoute dep r"
  shows "wellFormedRoute dep r'"
proof -
  from wf obtain cs where r: "points r = dep # cs" "cs \<noteq> []" "dep \<notin> set cs"
    by (cases "points r") (auto simp: wellFormedRoute_def)
  from same r have m: "mset (points r') = add_mset dep (mset cs)" and h: "points r' ! 0 = dep"
    by (simp_all add: sameStops_def)
  from m have "points r' \<noteq> []" by auto
  with h obtain cs' where r': "points r' = dep # cs'"
    by (cases "points r'") auto
  with m have "mset cs' = mset cs" by simp
  then have "set cs' = set cs" "cs' \<noteq> []"
    using r(2) by (auto dest: mset_eq_setD)
  with r r' show ?thesis by (simp add: wellFormedRoute_def)
qed

lemma mset_concat_cong:
  "(\<And>u. u \<in> set xs \<Longrightarrow> mset (g' u) = mset (g u)) \<Longrightarrow>
   mset (concat (map g' xs)) = mset (concat (map g xs))"
  by (induction xs) simp_all

lemma optimiseAll_invariant:
  assumes "roundInvariant s"
  shows "roundInvariant (optimiseAll s)"
proof -
  let ?rh' = "routeHeap (optimiseAll s)"
  have same: "sameStops (routeHeap s r) (?rh' r)" for r
    unfolding optimiseAll_def by (simp add: optimise_fold_sameStops)
  have "mset (activeCustomers (optimiseAll s)) = mset (activeCustomers s)"
    unfolding activeCustomers_def optimiseAll_frame
    by (rule mset_concat_cong) (rule sameStops_customers[OF same])
  moreover have "wellFormedRoute (cw_depot s) (?rh' r) \<and> route_id (?rh' r) = r"
    if "r \<in> set (solutions s)" for r
  proof -
    from assms that have "wellFormedRoute (cw_depot s) (routeHeap s r)" "route_id (routeHeap s r) = r"
      by (simp_all add: roundInvariant_def)
    with same[of r] show ?thesis
      by (simp add: sameStops_wellFormed) (simp add: sameStops_def)
  qed
  ultimately show ?thesis
    using assms by (simp add: roundInvariant_def optimiseAll_frame)
qed

lemma roundInvariant_cong:
  assumes "roundInvariant s" "cw_points s' = cw_points s" "cw_depot s' = cw_depot s"
    "solutions s' = solutions s" "routeHeap s' = routeHeap s"
  shows "roundInvariant s'"
  using assms by (simp add: roundInvariant_def activeCustomers_def)

lemma findAll_candidates:
  assumes "roundInvariant s"
  shows "candidatesInvariant (findAllRouteSavingsPairs s w)
           (savings_list (findAllRouteSavingsPairs s w))"
  unfolding candidatesInvariant_def
proof
  fix c assume "c \<in> set (savings_list (findAllRouteSavingsPairs s w))"
  then obtain route otherRoute where in_sol: "route \<in> set (solutions s)" "otherRoute \<in> set (solutions s)"
    and pair: "savingsPair s w route otherRoute = Some c"
    by (auto simp: set_savings_list)
  from savingsPair_feasible[OF pair] have ne: "routeA c \<noteq> routeB c"
    and ab: "{routeA c, routeB c} = {route, otherRoute}"
    by simp_all
  from ab in_sol have "routeA c \<in> set (solutions s)" "routeB c \<in> set (solutions s)"
    by (auto simp: doubleton_eq_iff)
  with assms have "candidateRoute s (routeA c)" "candidateRoute s (routeB c)"
    by (simp_all add: active_candidateRoute)
  then have "candidateRoute (findAllRouteSavingsPairs s w) (routeA c)"
    "candidateRoute (findAllRouteSavingsPairs s w) (routeB c)"
    by (simp_all add: candidateRoute_def joinedCustomers_def findAll_frame)
  with ne show "routeA c \<noteq> routeB c \<and> candidateRoute (findAllRouteSavingsPairs s w) (routeA c) \<and>
      candidateRoute (findAllRouteSavingsPairs s w) (routeB c)"
    by simp
qed

lemma findAll_invariant:
  assumes "roundInvariant s"
  shows "roundInvariant (findAllRouteSavingsPairs s w)"
  using assms by (rule roundInvariant_cong) (simp_all add: findAll_frame)

lemma solveRound_invariant:
  assumes inv: "roundInvariant s" and cands: "candidatesInvariant s (savings_list s)"
  shows "roundInvariant (solveRound w opt s) \<and>
         candidatesInvariant (solveRound w opt s) (savings_list (solveRound w opt s))"
proof -
  let ?s1 = "foldl mergeStep s (savings_list s)"
  let ?s2 = "if opt then optimiseAll ?s1 else ?s1"
  from mergeLoop_invariant[OF inv cands subset_refl] have "roundInvariant ?s1" by simp
  then have "roundInvariant ?s2" by (simp add: optimiseAll_invariant)
  then have "roundInvariant (?s2\<lparr>joinedRoutes := {}\<rparr>)"
    by (rule roundInvariant_cong) simp_all
  then show ?thesis
    unfolding solveRound_def Let_def
    by (simp only: findAll_invariant findAll_candidates)
qed

lemma solveLoop_invariant:
  "solveLoop fuel w opt s = Some s' \<Longrightarrow> roundInvariant s \<Longrightarrow>
   candidatesInvariant s (savings_list s) \<Longrightarrow> roundInvariant s'"
proof (induction fuel arbitrary: s)
  case 0
  then show ?case by simp
next
  case (Suc fuel)
  show ?case
  proof (cases "savings_list s = []")
    case True
    with Suc.prems show ?thesis by simp
  next
    case False
    with Suc.prems have "solveLoop fuel w opt (solveRound w opt s) = Some s'" by simp
    moreover from solveRound_invariant[OF Suc.prems(2,3), of w opt]
    have "roundInvariant (solveRound w opt s)"
      "candidatesInvariant (solveRound w opt s) (savings_list (solveRound w opt s))"
      by simp_all
    ultimately show ?thesis by (rule Suc.IH)
  qed
qed

lemma createRoute_fields:
  "solutions (createRoute t q) = solutions t @ [routeIdCounter t]"
  "routeIdCounter (createRoute t q) = routeIdCounter t + 1"
  "routeHeap (createRoute t q) =
     (routeHeap t)(routeIdCounter t := newRoute q (cw_depot t) (routeIdCounter t))"
  by (simp_all add: createRoute_def)

lemma createLoop_shape:
  "solutions (foldl createRoute s ps) = solutions s @ map (\<lambda>i. routeIdCounter s + i) [0..<length ps] \<and>
   routeIdCounter (foldl createRoute s ps) = routeIdCounter s + length ps \<and>
   (\<forall>i < length ps. routeHeap (foldl createRoute s ps) (routeIdCounter s + i)
        = newRoute (ps ! i) (cw_depot s) (routeIdCounter s + i))"
proof (induction ps rule: rev_induct)
  case Nil
  show ?case by simp
next
  case (snoc q ps)
  let ?t = "foldl createRoute s ps"
  have dep: "cw_depot ?t = cw_depot s" using createLoop_frame[of s ps] by simp
  from snoc have sol: "solutions ?t = solutions s @ map (\<lambda>i. routeIdCounter s + i) [0..<length ps]"
    and cnt: "routeIdCounter ?t = routeIdCounter s + length ps"
    and heap: "\<And>i. i < length ps \<Longrightarrow>
        routeHeap ?t (routeIdCounter s + i) = newRoute (ps ! i) (cw_depot s) (routeIdCounter s + i)"
    by simp_all
  have "routeHeap (createRoute ?t q) (routeIdCounter s + i)
      = newRoute ((ps @ [q]) ! i) (cw_depot s) (routeIdCounter s + i)"
    if "i < length (ps @ [q])" for i
  proof (cases "i = length ps")
    case True
    then show ?thesis by (simp add: createRoute_fields cnt dep)
  next
    case False
    with that have "i < length ps" by simp
    with False show ?thesis by (simp add: createRoute_fields cnt heap nth_append)
  qed
  then show ?case
    by (simp add: createRoute_fields sol cnt)
qed

lemma createRoutes_invariant:
  assumes d: "distinct (cw_points p)" and dep: "cw_depot p \<notin> set (cw_points p)"
  shows "roundInvariant (createRoutes p)"
proof -
  let ?s0 = "p\<lparr>solutions := []\<rparr>" and ?ps = "cw_points p" and ?c = "routeIdCounter p"
  let ?t = "createRoutes p"
  from createLoop_shape[of ?s0 ?ps]
  have sol: "solutions ?t = map (\<lambda>i. ?c + i) [0..<length ?ps]"
    and heap: "\<And>i. i < length ?ps \<Longrightarrow>
       routeHeap ?t (?c + i) = newRoute (?ps ! i) (cw_depot p) (?c + i)"
    by (simp_all add: createRoutes_def)
  have cust: "customersOf (cw_depot p) (routeHeap ?t (?c + i)) = [?ps ! i]" if "i < length ?ps" for i
  proof -
    from that dep have "?ps ! i \<noteq> cw_depot p" by (metis nth_mem)
    with that show ?thesis by (simp add: heap customersOf_def newRoute_def)
  qed
  have "activeCustomers ?t = concat (map (\<lambda>i. customersOf (cw_depot p) (routeHeap ?t (?c + i)))
      [0..<length ?ps])"
    by (simp add: activeCustomers_def sol createRoutes_frame comp_def)
  also have "\<dots> = concat (map (\<lambda>i. [?ps ! i]) [0..<length ?ps])"
    by (rule arg_cong[where f = concat], rule map_cong) (simp_all add: cust)
  also have "\<dots> = map (\<lambda>i. ?ps ! i) [0..<length ?ps]"
    by (induction "[0..<length ?ps]") (simp_all add: concat_map_singleton)
  also have "\<dots> = ?ps" by (rule map_nth)
  finally have act: "activeCustomers ?t = ?ps" .
  have dsol: "distinct (solutions ?t)"
    by (simp add: sol distinct_map inj_on_def)
  have wf: "wellFormedRoute (cw_depot ?t) (routeHeap ?t r) \<and> route_id (routeHeap ?t r) = r"
    if "r \<in> set (solutions ?t)" for r
  proof -
    from that have "r \<in> (\<lambda>i. ?c + i) ` {0..<length ?ps}"
      by (simp only: sol set_map set_upt)
    then obtain i where "i \<in> {0..<length ?ps}" and r: "r = ?c + i"
      by (rule imageE)
    then have i: "i < length ?ps" "r = ?c + i"
      by simp_all
    from i dep have "?ps ! i \<noteq> cw_depot p" by (metis nth_mem)
    with i show ?thesis
      by (simp add: heap createRoutes_frame wellFormedRoute_def newRoute_def)
  qed
  show ?thesis
    unfolding roundInvariant_def using d act dsol wf
    by (simp add: createRoutes_frame)
qed

lemma rounds_invariant:
  assumes "distinct (cw_points p)" "cw_depot p \<notin> set (cw_points p)"
  shows "roundInvariant (stateAfterRounds n p w opt) \<and>
         candidatesInvariant (stateAfterRounds n p w opt) (savings_list (stateAfterRounds n p w opt))"
proof (induction n)
  case 0
  have "roundInvariant (createRoutes p)" using assms by (rule createRoutes_invariant)
  then show ?case
    by (simp add: stateAfterRounds_def findAll_invariant findAll_candidates)
next
  case (Suc n)
  then have "roundInvariant (solveRound w opt (stateAfterRounds n p w opt)) \<and>
      candidatesInvariant (solveRound w opt (stateAfterRounds n p w opt))
        (savings_list (solveRound w opt (stateAfterRounds n p w opt)))"
    by (intro solveRound_invariant) simp_all
  then show ?case by (simp add: stateAfterRounds_def)
qed

lemma solveLoop_rounds:
  "solveLoop fuel w opt s = Some s' \<Longrightarrow> \<exists>n. s' = (solveRound w opt ^^ n) s"
proof (induction fuel arbitrary: s)
  case 0
  then show ?case by simp
next
  case (Suc fuel)
  show ?case
  proof (cases "savings_list s = []")
    case True
    with Suc.prems have "s' = (solveRound w opt ^^ 0) s" by simp
    then show ?thesis by blast
  next
    case False
    with Suc.prems have "solveLoop fuel w opt (solveRound w opt s) = Some s'" by simp
    from Suc.IH[OF this] obtain n where "s' = (solveRound w opt ^^ n) (solveRound w opt s)"
      by blast
    then have "s' = (solveRound w opt ^^ Suc n) s" by (simp add: funpow_swap1)
    then show ?thesis by blast
  qed
qed

lemma distinct_submset:
  assumes "mset xs \<subseteq># mset ys" "distinct ys"
  shows "distinct xs"
proof -
  have "count (mset xs) a = (if a \<in> set xs then 1 else 0)" for a
  proof -
    have "count (mset xs) a \<le> count (mset ys) a"
      using assms(1) by (rule mset_subset_eq_count)
    also have "\<dots> \<le> 1" using assms(2) by (simp add: distinct_count_atmost_1)
    finally have le: "count (mset xs) a \<le> 1" .
    show ?thesis
    proof (cases "a \<in> set xs")
      case True
      then have "count (mset xs) a \<noteq> 0" by simp
      with le have "count (mset xs) a = 1" by linarith
      with True show ?thesis by simp
    next
      case False
      then show ?thesis by simp
    qed
  qed
  then show ?thesis by (simp add: distinct_count_atmost_1)
qed

lemma mset_concat_filter: "mset (concat (map g (filter P xs))) \<subseteq># mset (concat (map g xs))"
  by (induction xs) (simp_all add: subset_mset.add_increasing)

lemma mset_concat_mset_cong:
  assumes "mset xs = mset ys"
  shows "mset (concat (map g xs)) = mset (concat (map g ys))"
proof -
  have "mset (concat (map g zs)) = sum_mset (image_mset (\<lambda>u. mset (g u)) (mset zs))" for zs
    by (induction zs) simp_all
  with assms show ?thesis by simp
qed

text \<open>
  C2.  Let the customer points be distinct and the depot none of them.  Then the active routes
  partition the customers after the construction of the singleton routes, after every step of
  the loop over the savings entries in every round (each step makes at most one call of
  \<open>joinRoutes\<close>, the fallback calls among them), and after \<open>optimise\<close> has run on the active
  routes; the state the loop ends in is one of these states.  So the non-depot points of the
  returned routes are customers of the problem, none of them twice.
\<close>

theorem routes_partition_customers:
  assumes "distinct (cw_points p)" "cw_depot p \<notin> set (cw_points p)"
  shows "partitionsCustomers (createRoutes p) \<and>
         (\<forall>n k. partitionsCustomers
                  (foldl mergeStep (stateAfterRounds n p w opt)
                     (take k (savings_list (stateAfterRounds n p w opt))))) \<and>
         (\<forall>n. partitionsCustomers
                (optimiseAll (foldl mergeStep (stateAfterRounds n p w opt)
                                (savings_list (stateAfterRounds n p w opt))))) \<and>
         (\<forall>s. solveLoop fuel w opt (stateAfterRounds 0 p w opt) = Some s \<longrightarrow>
              (\<exists>n. s = stateAfterRounds n p w opt)) \<and>
         (solve fuel p w opt = Some routes \<longrightarrow>
            distinct (concat (map (customersOf (cw_depot p)) routes)) \<and>
            set (concat (map (customersOf (cw_depot p)) routes)) \<subseteq> set (cw_points p))"
proof -
  let ?S = "\<lambda>n. stateAfterRounds n p w opt"
  have start: "partitionsCustomers (createRoutes p)"
    using assms by (intro roundInvariant_partitions createRoutes_invariant)
  have merge: "partitionsCustomers (foldl mergeStep (?S n) (take k (savings_list (?S n))))" for n k
  proof -
    from rounds_invariant[OF assms, of n w opt]
    have "roundInvariant (?S n)" "candidatesInvariant (?S n) (savings_list (?S n))"
      by simp_all
    moreover have "set (take k (savings_list (?S n))) \<subseteq> set (savings_list (?S n))"
      by (rule set_take_subset)
    ultimately have "roundInvariant (foldl mergeStep (?S n) (take k (savings_list (?S n))))"
      using mergeLoop_invariant by blast
    then show ?thesis by (rule roundInvariant_partitions)
  qed
  have optim: "partitionsCustomers (optimiseAll (foldl mergeStep (?S n) (savings_list (?S n))))" for n
  proof -
    from rounds_invariant[OF assms, of n w opt]
    have "roundInvariant (?S n)" "candidatesInvariant (?S n) (savings_list (?S n))"
      by simp_all
    then have "roundInvariant (foldl mergeStep (?S n) (savings_list (?S n)))"
      using mergeLoop_invariant[OF _ _ subset_refl] by blast
    then show ?thesis by (intro roundInvariant_partitions optimiseAll_invariant)
  qed
  have reach: "\<exists>n. s = ?S n" if "solveLoop fuel w opt (?S 0) = Some s" for s
  proof -
    from solveLoop_rounds[OF that] obtain n where "s = (solveRound w opt ^^ n) (?S 0)" by blast
    then have "s = ?S n" by (simp add: stateAfterRounds_def)
    then show ?thesis ..
  qed
  have out: "distinct (concat (map (customersOf (cw_depot p)) routes)) \<and>
      set (concat (map (customersOf (cw_depot p)) routes)) \<subseteq> set (cw_points p)"
    if sol: "solve fuel p w opt = Some routes"
  proof -
    from sol obtain s where
      s: "solveLoop fuel w opt (findAllRouteSavingsPairs (createRoutes p) w) = Some s"
      and routes: "routes = jsSort (\<lambda>a b. jsub (demandDensity (pointHeap s) b) (demandDensity (pointHeap s) a))
                  (filter (\<lambda>route. jlt (totalDistance (pointHeap s) route) (maxDistance s))
                     (map (routeHeap s) (solutions s)))"
      by (auto simp: solve_def split: option.splits)
    from solveLoop_frame[OF s] have fr: "cw_depot s = cw_depot p" "cw_points s = cw_points p"
      by (simp_all add: findAll_frame createRoutes_frame)
    from s have "solveLoop fuel w opt (?S 0) = Some s" by (simp add: stateAfterRounds_def)
    from reach[OF this] obtain n where "s = ?S n" ..
    with rounds_invariant[OF assms, of n w opt] have "roundInvariant s" by simp
    then have m: "mset (activeCustomers s) = mset (cw_points p)"
      by (simp add: roundInvariant_def fr)
    let ?g = "customersOf (cw_depot p)"
    let ?kept = "filter (\<lambda>route. jlt (totalDistance (pointHeap s) route) (maxDistance s))
                     (map (routeHeap s) (solutions s))"
    have "mset (concat (map ?g routes)) = mset (concat (map ?g ?kept))"
      unfolding routes by (rule mset_concat_mset_cong) (rule mset_jsSort)
    also have "\<dots> \<subseteq># mset (concat (map ?g (map (routeHeap s) (solutions s))))"
      by (rule mset_concat_filter)
    also have "concat (map ?g (map (routeHeap s) (solutions s))) = activeCustomers s"
      by (simp add: activeCustomers_def fr comp_def)
    finally have sub: "mset (concat (map ?g routes)) \<subseteq># mset (cw_points p)"
      by (simp only: m)
    from sub assms(1) have "distinct (concat (map ?g routes))" by (rule distinct_submset)
    moreover from set_mset_mono[OF sub] have "set (concat (map ?g routes)) \<subseteq> set (cw_points p)"
      by simp
    ultimately show ?thesis ..
  qed
  from start merge optim reach out show ?thesis by blast
qed

theorem routes_partition_customers_witness:
  "distinct (cw_points twoCustomerProblem) \<and>
   cw_depot twoCustomerProblem \<notin> set (cw_points twoCustomerProblem) \<and>
   activeCustomers (createRoutes twoCustomerProblem) = [CustRef 0, CustRef 1] \<and>
   partitionsCustomers (createRoutes twoCustomerProblem) \<and>
   solutions (foldl mergeStep (stateAfterRounds 0 twoCustomerProblem unitWeights True)
      (take 2 (savings_list (stateAfterRounds 0 twoCustomerProblem unitWeights True)))) = [0] \<and>
   partitionsCustomers (foldl mergeStep (stateAfterRounds 0 twoCustomerProblem unitWeights True)
      (take 2 (savings_list (stateAfterRounds 0 twoCustomerProblem unitWeights True)))) \<and>
   solve 3 twoCustomerProblem unitWeights True =
     Some [\<lparr>points = [DepotRef, CustRef 0, CustRef 1], depot = DepotRef, route_id = 0\<rparr>] \<and>
   distinct (concat (map (customersOf (cw_depot twoCustomerProblem))
     [\<lparr>points = [DepotRef, CustRef 0, CustRef 1], depot = DepotRef, route_id = 0\<rparr>]))"
proof -
  have h1: "distinct (cw_points twoCustomerProblem)" by simp
  have h2: "cw_depot twoCustomerProblem \<notin> set (cw_points twoCustomerProblem)" by simp
  have start: "stateAfterRounds 0 twoCustomerProblem unitWeights True = twoCustomerScored"
    by (simp add: stateAfterRounds_def tc_scored)
  have whole: "take 2 (savings_list twoCustomerScored) = savings_list twoCustomerScored"
    by (simp add: twoCustomerScored_def)
  have act: "activeCustomers (createRoutes twoCustomerProblem) = [CustRef 0, CustRef 1]"
    unfolding tc_created
    by (simp add: activeCustomers_def customersOf_def twoCustomerRoutes_def)
  have sol: "solutions twoCustomerMerged = [0]"
    by (simp add: twoCustomerMerged_def)
  note inst = routes_partition_customers[OF h1 h2, of unitWeights True 3
      "[\<lparr>points = [DepotRef, CustRef 0, CustRef 1], depot = DepotRef, route_id = 0\<rparr>]"]
  from inst have "partitionsCustomers (createRoutes twoCustomerProblem)"
    by (rule conjunct1)
  moreover from inst have "partitionsCustomers
      (foldl mergeStep (stateAfterRounds 0 twoCustomerProblem unitWeights True)
        (take 2 (savings_list (stateAfterRounds 0 twoCustomerProblem unitWeights True))))"
    by blast
  moreover from inst tc_solve have "distinct (concat (map (customersOf (cw_depot twoCustomerProblem))
     [\<lparr>points = [DepotRef, CustRef 0, CustRef 1], depot = DepotRef, route_id = 0\<rparr>]))"
    by blast
  ultimately show ?thesis
    using h1 h2 act tc_solve by (simp add: start whole tc_merged sol)
qed

section \<open>The loop of the solver ends\<close>

lemma length_spliceOut: "length (spliceOut v xs) = length xs - 1"
  by (simp add: spliceOut_def length_remove1)

lemma joinRoutes_length:
  "length (solutions (joinRoutes s a b)) \<le> length (solutions s)"
  by (simp add: joinRoutes_def Let_def length_spliceOut)

lemma mergeStep_length: "length (solutions (mergeStep s sv)) \<le> length (solutions s)"
  by (simp add: mergeStep_def Let_def joinRoutes_length)

lemma mergeLoop_length: "length (solutions (foldl mergeStep s svs)) \<le> length (solutions s)"
proof (induction svs arbitrary: s)
  case Nil
  show ?case by simp
next
  case (Cons sv svs)
  have "length (solutions (foldl mergeStep (mergeStep s sv) svs))
      \<le> length (solutions (mergeStep s sv))"
    by (rule Cons.IH)
  also have "\<dots> \<le> length (solutions s)" by (rule mergeStep_length)
  finally show ?case by simp
qed

lemma savings_need_two_routes:
  assumes "c \<in> set (savings_list (findAllRouteSavingsPairs s w))"
  shows "2 \<le> length (solutions s)"
proof -
  from assms obtain route otherRoute where "route \<in> set (solutions s)"
    "otherRoute \<in> set (solutions s)" "savingsPair s w route otherRoute = Some c"
    by (auto simp: set_savings_list)
  moreover from this have "route \<noteq> otherRoute"
    by (auto simp: savingsPair_def split: if_splits)
  ultimately have "2 \<le> card (set (solutions s))"
    by (metis card_2_iff' card_mono List.finite_set empty_subsetI insert_subset card_2_iff)
  also have "\<dots> \<le> length (solutions s)" by (rule card_length)
  finally show ?thesis .
qed

lemma findAll_fresh:
  assumes "joinedRoutes s = {}"
  shows "freshRound (findAllRouteSavingsPairs s w)"
  unfolding freshRound_def
proof (intro conjI ballI)
  show "joinedRoutes (findAllRouteSavingsPairs s w) = {}"
    using assms by (simp add: findAll_frame)
  show "savings_list (findAllRouteSavingsPairs s w) \<noteq> [] \<longrightarrow>
      solutions (findAllRouteSavingsPairs s w) \<noteq> []"
  proof
    assume "savings_list (findAllRouteSavingsPairs s w) \<noteq> []"
    then obtain c where "c \<in> set (savings_list (findAllRouteSavingsPairs s w))"
      by (cases "savings_list (findAllRouteSavingsPairs s w)") auto
    from savings_need_two_routes[OF this] show "solutions (findAllRouteSavingsPairs s w) \<noteq> []"
      by (auto simp: findAll_frame)
  qed
  fix c assume "c \<in> set (savings_list (findAllRouteSavingsPairs s w))"
  then obtain route otherRoute where "savingsPair s w route otherRoute = Some c"
    by (auto simp: set_savings_list)
  then have "verifyRouteJoin s (routeA c) (routeB c)"
    using savingsPair_feasible by blast
  then show "verifyRouteJoin (findAllRouteSavingsPairs s w) (routeA c) (routeB c)"
    by (simp add: verifyRouteJoin_def joinDistance_def findAll_frame)
qed

lemma first_merge_shrinks:
  assumes "freshRound s" "savings_list s = c # cs"
  shows "length (solutions (mergeStep s c)) < length (solutions s)"
proof -
  from assms have "verifyRouteJoin s (routeA c) (routeB c)" "joinedRoutes s = {}"
    "solutions s \<noteq> []"
    by (simp_all add: freshRound_def)
  then have "solutions (mergeStep s c) = spliceOut (routeB c) (solutions s)"
    by (simp add: mergeStep_def joinRoutes_def Let_def)
  with \<open>solutions s \<noteq> []\<close> show ?thesis by (simp add: length_spliceOut)
qed

lemma solveRound_fresh: "freshRound (solveRound w opt s)"
  unfolding solveRound_def Let_def by (rule findAll_fresh) simp

lemma solveRound_shrinks:
  assumes "freshRound s" "savings_list s \<noteq> []"
  shows "length (solutions (solveRound w opt s)) < length (solutions s)"
proof -
  from assms(2) obtain c cs where sv: "savings_list s = c # cs"
    by (cases "savings_list s") auto
  have "length (solutions (solveRound w opt s))
      = length (solutions (foldl mergeStep (mergeStep s c) cs))"
    by (simp add: solveRound_def Let_def findAll_frame optimiseAll_frame sv)
  also have "\<dots> \<le> length (solutions (mergeStep s c))" by (rule mergeLoop_length)
  also have "\<dots> < length (solutions s)" using assms(1) sv by (rule first_merge_shrinks)
  finally show ?thesis .
qed

lemma solveLoop_returns:
  "freshRound s \<Longrightarrow> length (solutions s) < fuel \<Longrightarrow> \<exists>s'. solveLoop fuel w opt s = Some s'"
proof (induction fuel arbitrary: s)
  case 0
  then show ?case by simp
next
  case (Suc fuel)
  show ?case
  proof (cases "savings_list s = []")
    case True
    then show ?thesis by simp
  next
    case False
    with Suc.prems have "length (solutions (solveRound w opt s)) < fuel"
      using solveRound_shrinks[of s w opt] by simp
    with Suc.IH[OF solveRound_fresh] False show ?thesis by simp
  qed
qed

text \<open>
  The loop of \<open>solve\<close> ends: every round with a savings entry joins the routes of the first
  entry, so fuel above the number of customers is enough.
\<close>

lemma solve_returns:
  assumes "joinedRoutes p = {}"
  shows "\<exists>routes. solve (length (cw_points p) + 1) p w opt = Some routes"
proof -
  have "solutions (createRoutes p) = map (\<lambda>i. routeIdCounter p + i) [0..<length (cw_points p)]"
    using createLoop_shape[of "p\<lparr>solutions := []\<rparr>" "cw_points p"]
    by (simp add: createRoutes_def)
  then have len: "length (solutions (findAllRouteSavingsPairs (createRoutes p) w))
      < length (cw_points p) + 1"
    by (simp add: findAll_frame)
  have "freshRound (findAllRouteSavingsPairs (createRoutes p) w)"
    using assms by (intro findAll_fresh) (simp add: createRoutes_frame)
  from solveLoop_returns[OF this len, of w opt] show ?thesis
    by (auto simp: solve_def)
qed

end
